theory Spec2Isabelle
  imports Main
begin

section \<open>The Directory Store\<close>

text \<open>
  The four tables of the migration (\<^verbatim>\<open>User\<close>, \<^verbatim>\<open>Tag\<close>, \<^verbatim>\<open>UserTag\<close>,
  \<^verbatim>\<open>BusySlot\<close>) are lists of rows. A \<^verbatim>\<open>Date\<close> is the integer of its
  \<^verbatim>\<open>getTime()\<close> (milliseconds since the epoch); \<^verbatim>\<open>toISOString()\<close> is a
  rendering of that integer and is left out, so the views carry instants. The columns
  \<^verbatim>\<open>createdAt\<close> and \<^verbatim>\<open>updatedAt\<close> depend on the wall clock and are left out
  as well. A JavaScript string is a \<open>string\<close> whose characters are the code units
  below 256.
\<close>

type_synonym instant = int

record user_row =
  u_id :: string
  u_name :: string
  u_email :: string
  u_phone :: "string option"

record tag_row =
  t_id :: nat
  t_name :: string

record userTag_row =
  ut_userId :: string
  ut_tagId :: nat

record busySlot_row =
  b_id :: nat
  b_from :: instant
  b_to :: instant
  b_reason :: "string option"
  b_userId :: string

text \<open>The operations of the Prisma client that the two services issue.\<close>

datatype prisma_call =
    UserFindMany | UserCreate | UserFindUnique | UserFindUniqueOrThrow
  | UserUpdate | UserDelete | TagUpsert | UserTagUpsert | UserTagDeleteMany
  | BusySlotDeleteMany | BusySlotCreate

text \<open>
  The client: the contents of the tables and, in \<open>calls\<close>, every operation issued so
  far, oldest first.
\<close>

record prisma =
  users :: "user_row list"
  tags :: "tag_row list"
  userTags :: "userTag_row list"
  busySlots :: "busySlot_row list"
  calls :: "prisma_call list"

text \<open>
  \<open>P2002\<close>: unique constraint failed; \<open>P2025\<close>: record not found;
  \<open>Unavailable\<close>: any failure of the store that carries no such code.
\<close>

datatype prisma_error = P2002 | P2025 | Unavailable string

datatype error = BadRequest string | NotFound string | Prisma prisma_error

definition issue :: "prisma_call \<Rightarrow> prisma \<Rightarrow> prisma" where
  "issue c s = s\<lparr>calls := calls s @ [c]\<rparr>"

text \<open>The \<^verbatim>\<open>tag\<close> relation of a \<^verbatim>\<open>UserTag\<close> row: the tag its \<^verbatim>\<open>tagId\<close> refers to.\<close>

definition tag_of :: "prisma \<Rightarrow> userTag_row \<Rightarrow> tag_row option" where
  "tag_of s ut = find (\<lambda>t. t_id t = ut_tagId ut) (tags s)"

text \<open>The \<^verbatim>\<open>tags\<close> and \<^verbatim>\<open>busySlots\<close> relations of a user.\<close>

definition tags_of_user :: "prisma \<Rightarrow> string \<Rightarrow> tag_row list" where
  "tags_of_user s uid =
     List.map_filter (tag_of s) (filter (\<lambda>ut. ut_userId ut = uid) (userTags s))"

definition busySlots_of_user :: "prisma \<Rightarrow> string \<Rightarrow> busySlot_row list" where
  "busySlots_of_user s uid = filter (\<lambda>b. b_userId b = uid) (busySlots s)"

text \<open>
  A row read with
  \<^verbatim>\<open>include: { tags: { include: { tag: true } }, busySlots: true }\<close>.
\<close>

record user_incl =
  i_user :: user_row
  i_tags :: "tag_row list"
  i_busySlots :: "busySlot_row list"

definition include_relations :: "prisma \<Rightarrow> user_row \<Rightarrow> user_incl" where
  "include_relations s u =
     \<lparr>i_user = u, i_tags = tags_of_user s (u_id u),
      i_busySlots = busySlots_of_user s (u_id u)\<rparr>"

subsection \<open>The filters of \<^verbatim>\<open>user.findMany\<close>\<close>

text \<open>
  The part of Prisma's \<^verbatim>\<open>where\<close> language that the availability query uses:
  \<^verbatim>\<open>{ lt: d }\<close> and \<^verbatim>\<open>{ gt: d }\<close> on a date column,
  \<^verbatim>\<open>{ from: f, to: g }\<close> on a busy slot, and on a user
  \<^verbatim>\<open>{ AND: [...] }\<close>, \<^verbatim>\<open>{ tags: { some: { tag: { name } } } }\<close> and
  \<^verbatim>\<open>{ busySlots: { none: w } }\<close>.
\<close>

datatype date_filter = lt instant | gt instant

datatype busySlot_where = BusySlotWhere date_filter date_filter

datatype user_where =
    AND "user_where list"
  | tags_some_tag_name string
  | busySlots_none busySlot_where

fun date_matches :: "date_filter \<Rightarrow> instant \<Rightarrow> bool" where
  "date_matches (lt d) x = (x < d)"
| "date_matches (gt d) x = (x > d)"

fun busySlot_matches :: "busySlot_where \<Rightarrow> busySlot_row \<Rightarrow> bool" where
  "busySlot_matches (BusySlotWhere f g) b =
     (date_matches f (b_from b) \<and> date_matches g (b_to b))"

fun user_matches :: "prisma \<Rightarrow> user_where \<Rightarrow> user_row \<Rightarrow> bool" where
  "user_matches s (AND ws) u = (\<forall>w \<in> set ws. user_matches s w u)"
| "user_matches s (tags_some_tag_name name) u =
     (\<exists>t \<in> set (tags_of_user s (u_id u)). t_name t = name)"
| "user_matches s (busySlots_none w) u =
     (\<not> (\<exists>b \<in> set (busySlots_of_user s (u_id u)). busySlot_matches w b))"

definition user_findMany :: "user_where \<Rightarrow> prisma \<Rightarrow> user_incl list \<times> prisma" where
  "user_findMany w s =
     (let s1 = issue UserFindMany s
      in (map (include_relations s1) (filter (user_matches s1 w) (users s1)), s1))"

section \<open>Strings\<close>

text \<open>
  \<^verbatim>\<open>String.prototype.trim\<close> removes white space and line terminators from both
  ends; below 256 these are the code units 9 to 13, 32 and 160.
\<close>

definition is_ws :: "char \<Rightarrow> bool" where
  "is_ws c = (c \<in> set [CHR 0x09, CHR 0x0A, CHR 0x0B, CHR 0x0C, CHR 0x0D, CHR 0x20, CHR 0xA0])"

definition trim :: "string \<Rightarrow> string" where
  "trim s = rev (dropWhile is_ws (rev (dropWhile is_ws s)))"

text \<open>\<^verbatim>\<open>s.split(',')\<close>: the pieces between the commas, empty pieces included.\<close>

fun split_comma :: "string \<Rightarrow> string list" where
  "split_comma [] = [[]]"
| "split_comma (c # cs) =
     (if c = CHR '','' then [] # split_comma cs
      else (case split_comma cs of p # ps \<Rightarrow> (c # p) # ps | [] \<Rightarrow> [[c]]))"

section \<open>AvailabilityService\<close>

text \<open>
  \<^verbatim>\<open>new Date(value)\<close> is the runtime's: \<open>parse\<close> gives the time value of the
  date, \<open>None\<close> where \<^verbatim>\<open>getTime()\<close> is \<^verbatim>\<open>NaN\<close>. A query parameter or body
  field that is missing is \<open>None\<close>.
\<close>

definition parseIsoDate ::
  "(string \<Rightarrow> instant option) \<Rightarrow> string option \<Rightarrow> string \<Rightarrow> error + instant" where
  "parseIsoDate parse value field =
     (case value of
        None \<Rightarrow> Inl (BadRequest (field @ '' is required''))
      | Some v \<Rightarrow>
          if trim v = [] then Inl (BadRequest (field @ '' is required''))
          else (case parse v of
                  None \<Rightarrow> Inl (BadRequest (field @ '' must be a valid ISO datetime''))
                | Some d \<Rightarrow> Inr d))"

text \<open>The \<^verbatim>\<open>tags\<close> query parameter: absent, one string, or repeated.\<close>

datatype raw_tags = Absent | Single string | Many "string list"

text \<open>
  The loop of \<^verbatim>\<open>normalizeTagsFromQuery\<close> and of \<^verbatim>\<open>normalizeTags\<close>, over what is
  left of the input, with \<^verbatim>\<open>out\<close> and \<^verbatim>\<open>seen\<close>.
\<close>

fun normalize_loop :: "string list \<Rightarrow> string list \<Rightarrow> string set \<Rightarrow> string list" where
  "normalize_loop [] out seen = out"
| "normalize_loop (t # ts) out seen =
     (let normalized = trim t
      in if normalized = [] then normalize_loop ts out seen
         else if normalized \<in> seen then normalize_loop ts out seen
         else normalize_loop ts (out @ [normalized]) (insert normalized seen))"

definition normalizeTagsFromQuery :: "raw_tags \<Rightarrow> string list" where
  "normalizeTagsFromQuery tgs =
     (let raw = (case tgs of
                   Many ts \<Rightarrow> [] @ ts
                 | Single t \<Rightarrow> [] @ split_comma t
                 | Absent \<Rightarrow> [])
      in normalize_loop raw [] {})"

record busy_view =
  bv_id :: nat
  bv_from :: instant
  bv_to :: instant
  bv_reason :: "string option"

record user_view =
  v_id :: string
  v_name :: string
  v_email :: string
  v_phone :: "string option"
  v_tags :: "string list"
  v_busy :: "busy_view list"

definition busy_to_view :: "busySlot_row \<Rightarrow> busy_view" where
  "busy_to_view sl =
     \<lparr>bv_id = b_id sl, bv_from = b_from sl, bv_to = b_to sl, bv_reason = b_reason sl\<rparr>"

definition toApiUser :: "user_incl \<Rightarrow> user_view" where
  "toApiUser user =
     \<lparr>v_id = u_id (i_user user), v_name = u_name (i_user user),
      v_email = u_email (i_user user), v_phone = u_phone (i_user user),
      v_tags = map t_name (i_tags user),
      v_busy = map busy_to_view (i_busySlots user)\<rparr>"

record GetFreeUsersInput =
  q_from :: "string option"
  q_to :: "string option"
  q_tags :: raw_tags

definition getFreeUsers ::
  "(string \<Rightarrow> instant option) \<Rightarrow> GetFreeUsersInput \<Rightarrow> prisma
     \<Rightarrow> (error + user_view list) \<times> prisma" where
  "getFreeUsers parse input s =
     (case parseIsoDate parse (q_from input) ''from'' of
        Inl e \<Rightarrow> (Inl e, s)
      | Inr from \<Rightarrow>
     (case parseIsoDate parse (q_to input) ''to'' of
        Inl e \<Rightarrow> (Inl e, s)
      | Inr to \<Rightarrow>
          if from \<ge> to then (Inl (BadRequest ''from must be before to''), s)
          else
            let tagFilter = normalizeTagsFromQuery (q_tags input);
                andTagFilters = map tags_some_tag_name tagFilter;
                (us, s1) = user_findMany
                  (AND (andTagFilters @ [busySlots_none (BusySlotWhere (lt to) (gt from))])) s
            in (Inr (map toApiUser us), s1)))"

section \<open>The write operations of the store\<close>

text \<open>
  Modelled from the spec: the defaults that generate \<^verbatim>\<open>Tag.id\<close> and
  \<^verbatim>\<open>BusySlot.id\<close> are declared in the Prisma schema, which is not among the
  sources. The spec asks of an id only that it is unique, so the store takes the number
  after the largest one in use.
\<close>

definition fresh_id :: "nat list \<Rightarrow> nat" where
  "fresh_id ids = Suc (fold max ids 0)"

text \<open>
  \<^verbatim>\<open>connectOrCreate: { where: { name }, create: { name } }\<close>, which is also what
  \<^verbatim>\<open>tag.upsert\<close> with an empty \<^verbatim>\<open>update\<close> does: the tag of that name, created
  if there is none.
\<close>

definition tag_connectOrCreate :: "string \<Rightarrow> prisma \<Rightarrow> tag_row \<times> prisma" where
  "tag_connectOrCreate name s =
     (case find (\<lambda>t. t_name t = name) (tags s) of
        Some t \<Rightarrow> (t, s)
      | None \<Rightarrow>
          let t = \<lparr>t_id = fresh_id (map t_id (tags s)), t_name = name\<rparr>
          in (t, s\<lparr>tags := tags s @ [t]\<rparr>))"

text \<open>
  The association row of a user and a tag, added unless it is there. The callers have
  read the user row before, so the foreign keys of the new row hold.
\<close>

definition userTag_put :: "string \<Rightarrow> nat \<Rightarrow> prisma \<Rightarrow> prisma" where
  "userTag_put uid tid s =
     (if \<exists>ut \<in> set (userTags s). ut_userId ut = uid \<and> ut_tagId ut = tid then s
      else s\<lparr>userTags := userTags s @ [\<lparr>ut_userId = uid, ut_tagId = tid\<rparr>]\<rparr>)"

definition tag_upsert :: "string \<Rightarrow> prisma \<Rightarrow> tag_row \<times> prisma" where
  "tag_upsert name s = tag_connectOrCreate name (issue TagUpsert s)"

definition userTag_upsert :: "string \<Rightarrow> nat \<Rightarrow> prisma \<Rightarrow> prisma" where
  "userTag_upsert uid tid s = userTag_put uid tid (issue UserTagUpsert s)"

text \<open>\<^verbatim>\<open>userTag.deleteMany({ where: { userId } })\<close>\<close>

definition userTag_deleteMany :: "string \<Rightarrow> prisma \<Rightarrow> prisma" where
  "userTag_deleteMany uid s =
     (let s1 = issue UserTagDeleteMany s
      in s1\<lparr>userTags := filter (\<lambda>ut. \<not> ut_userId ut = uid) (userTags s1)\<rparr>)"

text \<open>\<^verbatim>\<open>userTag.deleteMany({ where: { userId, tag: { name: { in: names } } } })\<close>\<close>

definition userTag_deleteMany_in :: "string \<Rightarrow> string list \<Rightarrow> prisma \<Rightarrow> prisma" where
  "userTag_deleteMany_in uid names s =
     (let s1 = issue UserTagDeleteMany s
      in s1\<lparr>userTags :=
              filter (\<lambda>ut. \<not> (ut_userId ut = uid \<and>
                               (case tag_of s1 ut of
                                  Some t \<Rightarrow> t_name t \<in> set names
                                | None \<Rightarrow> False)))
                (userTags s1)\<rparr>)"

text \<open>\<^verbatim>\<open>busySlot.deleteMany({ where: { userId } })\<close>\<close>

definition busySlot_deleteMany :: "string \<Rightarrow> prisma \<Rightarrow> prisma" where
  "busySlot_deleteMany uid s =
     (let s1 = issue BusySlotDeleteMany s
      in s1\<lparr>busySlots := filter (\<lambda>b. \<not> b_userId b = uid) (busySlots s1)\<rparr>)"

definition busySlot_create ::
  "string \<Rightarrow> instant \<Rightarrow> instant \<Rightarrow> string option \<Rightarrow> prisma \<Rightarrow> busySlot_row \<times> prisma" where
  "busySlot_create uid from to reason s =
     (let s1 = issue BusySlotCreate s;
          slot = \<lparr>b_id = fresh_id (map b_id (busySlots s1)), b_from = from, b_to = to,
                   b_reason = reason, b_userId = uid\<rparr>
      in (slot, s1\<lparr>busySlots := busySlots s1 @ [slot]\<rparr>))"

text \<open>\<^verbatim>\<open>user.findUnique({ where: { id } })\<close>\<close>

definition user_findUnique :: "string \<Rightarrow> prisma \<Rightarrow> user_row option \<times> prisma" where
  "user_findUnique uid s =
     (let s1 = issue UserFindUnique s in (find (\<lambda>u. u_id u = uid) (users s1), s1))"

text \<open>\<^verbatim>\<open>user.findUnique({ where: { email }, include })\<close>\<close>

definition user_findUnique_email :: "string \<Rightarrow> prisma \<Rightarrow> user_incl option \<times> prisma" where
  "user_findUnique_email email s =
     (let s1 = issue UserFindUnique s
      in (map_option (include_relations s1) (find (\<lambda>u. u_email u = email) (users s1)), s1))"

text \<open>\<^verbatim>\<open>user.findUniqueOrThrow({ where: { id }, include })\<close>\<close>

definition user_findUniqueOrThrow ::
  "string \<Rightarrow> prisma \<Rightarrow> (prisma_error + user_incl) \<times> prisma" where
  "user_findUniqueOrThrow uid s =
     (let s1 = issue UserFindUniqueOrThrow s
      in (case find (\<lambda>u. u_id u = uid) (users s1) of
            None \<Rightarrow> (Inl P2025, s1)
          | Some u \<Rightarrow> (Inr (include_relations s1 u), s1)))"

text \<open>
  \<^verbatim>\<open>user.update({ where: { id }, data: { name, phone }, include })\<close>. A field of
  \<^verbatim>\<open>data\<close> that is \<^verbatim>\<open>undefined\<close> (\<open>None\<close>) is left as it is.
\<close>

definition user_update ::
  "string \<Rightarrow> string option \<Rightarrow> string option \<Rightarrow> prisma \<Rightarrow> (prisma_error + user_incl) \<times> prisma" where
  "user_update uid name phone s =
     (let s1 = issue UserUpdate s
      in (case find (\<lambda>u. u_id u = uid) (users s1) of
            None \<Rightarrow> (Inl P2025, s1)
          | Some u \<Rightarrow>
              let u' = u\<lparr>u_name := (case name of None \<Rightarrow> u_name u | Some n \<Rightarrow> n),
                          u_phone := (case phone of None \<Rightarrow> u_phone u | Some p \<Rightarrow> Some p)\<rparr>;
                  s2 = s1\<lparr>users := map (\<lambda>r. if u_id r = uid then u' else r) (users s1)\<rparr>
              in (Inr (include_relations s2 u'), s2)))"

text \<open>
  \<^verbatim>\<open>user.create\<close> with the nested \<^verbatim>\<open>tags: { create: [...] }\<close>, one write that
  happens whole or not at all. \<open>fault\<close> is a failure of the store during the call, if
  any. The primary key and the unique index on \<^verbatim>\<open>email\<close> raise \<open>P2002\<close>.
\<close>

definition user_create ::
  "prisma_error option \<Rightarrow> string \<Rightarrow> string \<Rightarrow> string \<Rightarrow> string option \<Rightarrow> string list \<Rightarrow> prisma
     \<Rightarrow> (prisma_error + user_incl) \<times> prisma" where
  "user_create fault uid name email phone tgs s =
     (let s1 = issue UserCreate s
      in (case fault of
            Some e \<Rightarrow> (Inl e, s1)
          | None \<Rightarrow>
              if \<exists>u \<in> set (users s1). u_id u = uid \<or> u_email u = email then (Inl P2002, s1)
              else
                let u = \<lparr>u_id = uid, u_name = name, u_email = email, u_phone = phone\<rparr>;
                    s2 = s1\<lparr>users := users s1 @ [u]\<rparr>;
                    s3 = fold (\<lambda>n a. let (t, b) = tag_connectOrCreate n a
                                       in userTag_put uid (t_id t) b) tgs s2
                in (Inr (include_relations s3 u), s3)))"

text \<open>
  \<^verbatim>\<open>user.delete({ where: { id } })\<close>; the foreign keys of \<^verbatim>\<open>UserTag\<close> and
  \<^verbatim>\<open>BusySlot\<close> are \<^verbatim>\<open>ON DELETE CASCADE\<close>. \<open>fault\<close> as above.
\<close>

definition user_delete ::
  "prisma_error option \<Rightarrow> string \<Rightarrow> prisma \<Rightarrow> (prisma_error + unit) \<times> prisma" where
  "user_delete fault uid s =
     (let s1 = issue UserDelete s
      in (case fault of
            Some e \<Rightarrow> (Inl e, s1)
          | None \<Rightarrow>
              if \<not> (\<exists>u \<in> set (users s1). u_id u = uid) then (Inl P2025, s1)
              else (Inr (),
                    s1\<lparr>users := filter (\<lambda>u. \<not> u_id u = uid) (users s1),
                       userTags := filter (\<lambda>ut. \<not> ut_userId ut = uid) (userTags s1),
                       busySlots := filter (\<lambda>b. \<not> b_userId b = uid) (busySlots s1)\<rparr>)))"

text \<open>
  \<^verbatim>\<open>$transaction\<close>: when the body throws, the tables are as they were before it.
\<close>

definition transaction ::
  "(prisma \<Rightarrow> (error + 'a) \<times> prisma) \<Rightarrow> prisma \<Rightarrow> (error + 'a) \<times> prisma" where
  "transaction body s =
     (case body s of
        (Inl e, tx) \<Rightarrow> (Inl e, s\<lparr>calls := calls tx\<rparr>)
      | (Inr x, tx) \<Rightarrow> (Inr x, tx))"

section \<open>UsersService\<close>

definition normalizeTags :: "string list \<Rightarrow> string list" where
  "normalizeTags tgs = normalize_loop tgs [] {}"

text \<open>\<open>rnd\<close> is \<^verbatim>\<open>Math.random().toString(36).slice(2, 10)\<close>.\<close>

definition generateUserId :: "string \<Rightarrow> string" where
  "generateUserId rnd = ''usr_'' @ rnd"

text \<open>
  The loop \<^verbatim>\<open>for (const name of tags) { tag.upsert; userTag.upsert }\<close> of
  \<^verbatim>\<open>create\<close> and \<^verbatim>\<open>updateTags\<close>.
\<close>

fun upsert_tags :: "string \<Rightarrow> string list \<Rightarrow> prisma \<Rightarrow> prisma" where
  "upsert_tags uid [] tx = tx"
| "upsert_tags uid (name # names) tx =
     (let (tag, tx1) = tag_upsert name tx;
          tx2 = userTag_upsert uid (t_id tag) tx1
      in upsert_tags uid names tx2)"

record CreateUserInput =
  c_name :: "string option"
  c_email :: "string option"
  c_phone :: "string option"
  c_tags :: "string list option"

definition create ::
  "string \<Rightarrow> prisma_error option \<Rightarrow> CreateUserInput \<Rightarrow> prisma \<Rightarrow> (error + user_view) \<times> prisma" where
  "create rnd fault input s =
     (case c_name input of
        None \<Rightarrow> (Inl (BadRequest ''name is required''), s)
      | Some name \<Rightarrow>
     if trim name = [] then (Inl (BadRequest ''name is required''), s)
     else
     (case c_email input of
        None \<Rightarrow> (Inl (BadRequest ''email is required''), s)
      | Some email \<Rightarrow>
     if trim email = [] then (Inl (BadRequest ''email is required''), s)
     else
       let uid = generateUserId rnd;
           tgs = normalizeTags (case c_tags input of None \<Rightarrow> [] | Some ts \<Rightarrow> ts)
       in (case user_create fault uid name email (c_phone input) tgs s of
             (Inr created, s1) \<Rightarrow> (Inr (toApiUser created), s1)
           | (Inl e, s1) \<Rightarrow>
               if e \<noteq> P2002 then (Inl (Prisma e), s1)
               else
                 (case user_findUnique_email email s1 of
                    (None, s2) \<Rightarrow> (Inl (Prisma e), s2)
                  | (Some existing, s2) \<Rightarrow>
                      (case transaction
                              (\<lambda>tx.
                                 let eid = u_id (i_user existing);
                                     tx1 = busySlot_deleteMany eid tx;
                                     tx2 = userTag_deleteMany eid tx1;
                                     tx3 = upsert_tags eid tgs tx2
                                 in (case user_update eid (Some name) (c_phone input) tx3 of
                                       (Inl e', tx4) \<Rightarrow> (Inl (Prisma e'), tx4)
                                     | (Inr r, tx4) \<Rightarrow> (Inr r, tx4)))
                              s2 of
                         (Inl e', s3) \<Rightarrow> (Inl e', s3)
                       | (Inr reset, s3) \<Rightarrow> (Inr (toApiUser reset), s3))))))"

definition delete ::
  "prisma_error option \<Rightarrow> string \<Rightarrow> prisma \<Rightarrow> (error + unit) \<times> prisma" where
  "delete fault uid s =
     (case user_delete fault uid s of
        (Inl e, s1) \<Rightarrow> (Inl (NotFound ''user not found''), s1)
      | (Inr x, s1) \<Rightarrow> (Inr (), s1))"

record UpdateUserTagsInput =
  p_add :: "string list option"
  p_remove :: "string list option"

definition updateTags ::
  "string \<Rightarrow> UpdateUserTagsInput \<Rightarrow> prisma \<Rightarrow> (error + user_view) \<times> prisma" where
  "updateTags uid input s =
     (let add = normalizeTags (case p_add input of None \<Rightarrow> [] | Some ts \<Rightarrow> ts);
          remove = normalizeTags (case p_remove input of None \<Rightarrow> [] | Some ts \<Rightarrow> ts)
      in (case transaction
                (\<lambda>tx.
                   (case user_findUnique uid tx of
                      (None, tx1) \<Rightarrow> (Inl (NotFound ''user not found''), tx1)
                    | (Some exists, tx1) \<Rightarrow>
                        let tx2 = upsert_tags uid add tx1;
                            tx3 = (if length remove > 0
                                   then userTag_deleteMany_in uid remove tx2 else tx2)
                        in (case user_findUniqueOrThrow uid tx3 of
                              (Inl e, tx4) \<Rightarrow> (Inl (Prisma e), tx4)
                            | (Inr u, tx4) \<Rightarrow> (Inr u, tx4))))
                s of
            (Inl e, s1) \<Rightarrow> (Inl e, s1)
          | (Inr updated, s1) \<Rightarrow> (Inr (toApiUser updated), s1)))"

record MarkBusyInput =
  m_from :: "string option"
  m_to :: "string option"
  m_reason :: "string option"

definition markBusy ::
  "(string \<Rightarrow> instant option) \<Rightarrow> string \<Rightarrow> MarkBusyInput \<Rightarrow> prisma
     \<Rightarrow> (error + busy_view) \<times> prisma" where
  "markBusy parse uid input s =
     (case parseIsoDate parse (m_from input) ''from'' of
        Inl e \<Rightarrow> (Inl e, s)
      | Inr from \<Rightarrow>
     (case parseIsoDate parse (m_to input) ''to'' of
        Inl e \<Rightarrow> (Inl e, s)
      | Inr to \<Rightarrow>
          if from \<ge> to then (Inl (BadRequest ''from must be before to''), s)
          else
            (case user_findUnique uid s of
               (None, s1) \<Rightarrow> (Inl (NotFound ''user not found''), s1)
             | (Some userExists, s1) \<Rightarrow>
                 let (slot, s2) = busySlot_create uid from to (m_reason input) s1
                 in (Inr (busy_to_view slot), s2))))"

section \<open>The specification's notions\<close>

text \<open>
  The required-tag set in the words of the specification: a single string is split on
  commas, a list is taken as it is, every candidate is trimmed, the empty ones are
  dropped, and of equal names the first stays.
\<close>

fun keep_first :: "'a list \<Rightarrow> 'a list" where
  "keep_first [] = []"
| "keep_first (x # xs) = x # keep_first (removeAll x xs)"

definition candidates :: "raw_tags \<Rightarrow> string list" where
  "candidates tgs = (case tgs of Absent \<Rightarrow> [] | Single t \<Rightarrow> split_comma t | Many ts \<Rightarrow> ts)"

definition required_tags_spec :: "raw_tags \<Rightarrow> string list" where
  "required_tags_spec tgs = keep_first (filter (\<lambda>c. c \<noteq> []) (map trim (candidates tgs)))"

text \<open>
  What splitting on commas means: the pieces, put together again with a comma between
  neighbours, are the string.
\<close>

fun join_commas :: "string list \<Rightarrow> string" where
  "join_commas [] = []"
| "join_commas [p] = p"
| "join_commas (p # q # ps) = p @ CHR '','' # join_commas (q # ps)"

text \<open>
  Two half-open intervals overlap if and only if each starts before the other ends. A
  user is free over a window if and only if none of the user's busy slots overlaps it.
\<close>

definition overlaps :: "instant \<Rightarrow> instant \<Rightarrow> instant \<Rightarrow> instant \<Rightarrow> bool" where
  "overlaps x_from x_to y_from y_to = (x_from < y_to \<and> y_from < x_to)"

definition free_over :: "prisma \<Rightarrow> string \<Rightarrow> instant \<Rightarrow> instant \<Rightarrow> bool" where
  "free_over s uid w_from w_to =
     (\<forall>S \<in> set (busySlots s). b_userId S = uid \<longrightarrow> \<not> overlaps (b_from S) (b_to S) w_from w_to)"

text \<open>
  A user has a tag if one of the user's associations refers to a tag of exactly that
  name; a user matches a required-tag set if the user has every tag of it.
\<close>

definition has_tag :: "prisma \<Rightarrow> string \<Rightarrow> string \<Rightarrow> bool" where
  "has_tag s uid name =
     (\<exists>ut \<in> set (userTags s). ut_userId ut = uid \<and>
        (case tag_of s ut of Some t \<Rightarrow> t_name t = name | None \<Rightarrow> False))"

definition matches_tags :: "prisma \<Rightarrow> string list \<Rightarrow> string \<Rightarrow> bool" where
  "matches_tags s T uid = (\<forall>name \<in> set T. has_tag s uid name)"

text \<open>
  The window of a busy-slot request is accepted when both ends parse and the start is
  strictly before the end.
\<close>

definition window_ok :: "(string \<Rightarrow> instant option) \<Rightarrow> MarkBusyInput \<Rightarrow> instant \<Rightarrow> instant \<Rightarrow> bool" where
  "window_ok parse input a b =
     (parseIsoDate parse (m_from input) ''from'' = Inr a \<and>
      parseIsoDate parse (m_to input) ''to'' = Inr b \<and> a < b)"

text \<open>
  The primary keys of \<^verbatim>\<open>User\<close> and \<^verbatim>\<open>Tag\<close> and the unique index on
  \<^verbatim>\<open>User.email\<close>, which the database enforces.
\<close>

definition store_keys_ok :: "prisma \<Rightarrow> bool" where
  "store_keys_ok s =
     (distinct (map u_id (users s)) \<and> distinct (map u_email (users s)) \<and>
      distinct (map t_id (tags s)))"

text \<open>
  The primary key of \<^verbatim>\<open>Tag\<close> and the foreign key \<^verbatim>\<open>UserTag_tagId_fkey\<close>:
  tag ids are unique and every association refers to a tag of the catalog.
\<close>

definition tag_refs_ok :: "prisma \<Rightarrow> bool" where
  "tag_refs_ok s =
     (distinct (map t_id (tags s)) \<and>
      (\<forall>ut \<in> set (userTags s). ut_tagId ut \<in> t_id ` set (tags s)))"

section \<open>The scenario of the end-to-end test\<close>

text \<open>
  The three users of \<^verbatim>\<open>test/app.e2e-spec.ts\<close> with their tags and busy slots on
  2026-02-06, and a fourth user who holds \<^verbatim>\<open>backend\<close> and has no busy slot.
  \<open>scenario_parse\<close> is \<^verbatim>\<open>new Date\<close> on the timestamps of the test.
\<close>

definition scenario_parse :: "string \<Rightarrow> instant option" where
  "scenario_parse = map_of
     [(''2026-02-06T11:00:00Z'', 1770375600000), (''2026-02-06T11:15:00Z'', 1770376500000),
      (''2026-02-06T11:45:00Z'', 1770378300000), (''2026-02-06T12:00:00Z'', 1770379200000),
      (''2026-02-06T12:30:00Z'', 1770381000000), (''2026-02-06T13:00:00Z'', 1770382800000)]"

definition scenario_store :: prisma where
  "scenario_store =
     \<lparr>users =
        [\<lparr>u_id = ''usr_1'', u_name = ''User One'', u_email = ''user1@example.com'', u_phone = None\<rparr>,
         \<lparr>u_id = ''usr_2'', u_name = ''User Two'', u_email = ''user2@example.com'', u_phone = None\<rparr>,
         \<lparr>u_id = ''usr_3'', u_name = ''User Three'', u_email = ''user3@example.com'', u_phone = None\<rparr>,
         \<lparr>u_id = ''usr_4'', u_name = ''User Four'', u_email = ''user4@example.com'',
          u_phone = Some ''555''\<rparr>],
      tags = [\<lparr>t_id = 1, t_name = ''backend''\<rparr>, \<lparr>t_id = 2, t_name = ''frontend''\<rparr>],
      userTags =
        [\<lparr>ut_userId = ''usr_1'', ut_tagId = 1\<rparr>, \<lparr>ut_userId = ''usr_2'', ut_tagId = 2\<rparr>,
         \<lparr>ut_userId = ''usr_3'', ut_tagId = 1\<rparr>, \<lparr>ut_userId = ''usr_4'', ut_tagId = 1\<rparr>],
      busySlots =
        [\<lparr>b_id = 1, b_from = 1770375600000, b_to = 1770381000000,
          b_reason = Some ''User1 meeting'', b_userId = ''usr_1''\<rparr>,
         \<lparr>b_id = 2, b_from = 1770376500000, b_to = 1770378300000,
          b_reason = Some ''User2 focus'', b_userId = ''usr_2''\<rparr>,
         \<lparr>b_id = 3, b_from = 1770379200000, b_to = 1770382800000,
          b_reason = Some ''User3 interview'', b_userId = ''usr_3''\<rparr>],
      calls = []\<rparr>"

definition backend_1230_13 :: GetFreeUsersInput where
  "backend_1230_13 =
     \<lparr>q_from = Some ''2026-02-06T12:30:00Z'', q_to = Some ''2026-02-06T13:00:00Z'',
      q_tags = Single ''backend''\<rparr>"

definition backend_11_12 :: GetFreeUsersInput where
  "backend_11_12 =
     \<lparr>q_from = Some ''2026-02-06T11:00:00Z'', q_to = Some ''2026-02-06T12:00:00Z'',
      q_tags = Single ''backend''\<rparr>"

text \<open>Requests against the scenario.\<close>

definition review_slot :: MarkBusyInput where
  "review_slot =
     \<lparr>m_from = Some ''2026-02-06T12:00:00Z'', m_to = Some ''2026-02-06T13:00:00Z'',
      m_reason = Some ''Review''\<rparr>"

definition inverted_slot :: MarkBusyInput where
  "inverted_slot =
     \<lparr>m_from = Some ''2026-02-06T13:00:00Z'', m_to = Some ''2026-02-06T12:00:00Z'',
      m_reason = None\<rparr>"

definition swap_backend :: UpdateUserTagsInput where
  "swap_backend = \<lparr>p_add = Some [''ops'', '' backend ''], p_remove = Some [''backend'']\<rparr>"

definition drop_backend :: UpdateUserTagsInput where
  "drop_backend = \<lparr>p_add = None, p_remove = Some [''backend'', ''ops'']\<rparr>"

definition again_user4 :: CreateUserInput where
  "again_user4 =
     \<lparr>c_name = Some ''User Four'', c_email = Some ''user4@example.com'', c_phone = None,
      c_tags = Some [''backend'']\<rparr>"

definition empty_store :: prisma where
  "empty_store = \<lparr>users = [], tags = [], userTags = [], busySlots = [], calls = []\<rparr>"

section \<open>Intermediate states\<close>

text \<open>
  The normalised lists of \<^verbatim>\<open>updateTags\<close> and the client after a call of it that
  found the user.
\<close>

definition add_names :: "UpdateUserTagsInput \<Rightarrow> string list" where
  "add_names input = normalizeTags (case p_add input of None \<Rightarrow> [] | Some ts \<Rightarrow> ts)"

definition remove_names :: "UpdateUserTagsInput \<Rightarrow> string list" where
  "remove_names input = normalizeTags (case p_remove input of None \<Rightarrow> [] | Some ts \<Rightarrow> ts)"

definition after_updateTags :: "string \<Rightarrow> UpdateUserTagsInput \<Rightarrow> prisma \<Rightarrow> prisma" where
  "after_updateTags uid input s =
     (let add = normalizeTags (case p_add input of None \<Rightarrow> [] | Some ts \<Rightarrow> ts);
          remove = normalizeTags (case p_remove input of None \<Rightarrow> [] | Some ts \<Rightarrow> ts);
          tx2 = upsert_tags uid add (issue UserFindUnique s);
          tx3 = (if length remove > 0 then userTag_deleteMany_in uid remove tx2 else tx2)
      in issue UserFindUniqueOrThrow tx3)"

text \<open>
  One round of the loop of \<open>upsert_tags\<close>, and what it maintains: tag ids are unique
  and every association of the user refers to a tag of the catalog.
\<close>

definition upsert_step :: "string \<Rightarrow> string \<Rightarrow> prisma \<Rightarrow> prisma" where
  "upsert_step uid name tx =
     userTag_upsert uid (t_id (fst (tag_upsert name tx))) (snd (tag_upsert name tx))"

definition attach_inv :: "string \<Rightarrow> prisma \<Rightarrow> bool" where
  "attach_inv uid tx =
     (distinct (map t_id (tags tx)) \<and>
      (\<forall>ut \<in> set (userTags tx). ut_userId ut = uid \<longrightarrow> ut_tagId ut \<in> t_id ` set (tags tx)))"

text \<open>
  The normalised tags and the phone of \<^verbatim>\<open>create\<close>, and the client after its
  transaction on an existing user \<open>ex\<close>.
\<close>

definition new_tags :: "CreateUserInput \<Rightarrow> string list" where
  "new_tags input = normalizeTags (case c_tags input of None \<Rightarrow> [] | Some ts \<Rightarrow> ts)"

definition new_phone :: "CreateUserInput \<Rightarrow> user_row \<Rightarrow> string option" where
  "new_phone input ex = (case c_phone input of None \<Rightarrow> u_phone ex | Some p \<Rightarrow> Some p)"

definition reset_tags :: "CreateUserInput \<Rightarrow> user_row \<Rightarrow> prisma \<Rightarrow> prisma" where
  "reset_tags input ex s =
     upsert_tags (u_id ex) (new_tags input)
       (userTag_deleteMany (u_id ex)
          (busySlot_deleteMany (u_id ex) (issue UserFindUnique (issue UserCreate s))))"

definition after_reset :: "CreateUserInput \<Rightarrow> string \<Rightarrow> user_row \<Rightarrow> prisma \<Rightarrow> prisma" where
  "after_reset input name ex s =
     (issue UserUpdate (reset_tags input ex s))
       \<lparr>users := map (\<lambda>r. if u_id r = u_id ex
                           then ex\<lparr>u_name := name, u_phone := new_phone input ex\<rparr> else r)
                   (users s)\<rparr>"

section \<open>Tag normalisation\<close>

lemma removeAll_filter_conv: "removeAll x (filter P xs) = filter (\<lambda>y. P y \<and> y \<noteq> x) xs"
  by (induction xs) auto

lemma set_keep_first: "set (keep_first xs) = set xs"
  by (induction xs rule: keep_first.induct) auto

lemma distinct_keep_first: "distinct (keep_first xs)"
  by (induction xs rule: keep_first.induct) (auto simp: set_keep_first)

text \<open>
  The invariant of the loop: \<open>seen\<close> holds the names of \<open>out\<close>, and what the loop
  still appends are the first occurrences of the non-empty trimmed names not yet seen.
\<close>

lemma normalize_loop_keep_first:
  "normalize_loop ts out (set out) =
     out @ keep_first (filter (\<lambda>c. c \<noteq> [] \<and> c \<notin> set out) (map trim ts))"
proof (induction ts arbitrary: out)
  case Nil
  show ?case by simp
next
  case (Cons t ts)
  show ?case
  proof (cases "trim t = [] \<or> trim t \<in> set out")
    case True
    then show ?thesis using Cons.IH [of out] by (auto simp: Let_def)
  next
    case False
    have "normalize_loop (t # ts) out (set out) =
            normalize_loop ts (out @ [trim t]) (set (out @ [trim t]))"
      using False by (simp add: Let_def)
    also have "\<dots> = (out @ [trim t]) @
          keep_first (filter (\<lambda>c. c \<noteq> [] \<and> c \<notin> set (out @ [trim t])) (map trim ts))"
      by (rule Cons.IH)
    also have "filter (\<lambda>c. c \<noteq> [] \<and> c \<notin> set (out @ [trim t])) (map trim ts) =
          removeAll (trim t) (filter (\<lambda>c. c \<noteq> [] \<and> c \<notin> set out) (map trim ts))"
      by (simp add: removeAll_filter_conv) (metis)
    finally show ?thesis using False by simp
  qed
qed

lemma normalize_loop_start:
  "normalize_loop ts [] {} = keep_first (filter (\<lambda>c. c \<noteq> []) (map trim ts))"
  using normalize_loop_keep_first [of ts "[]"] by simp

subsection \<open>Splitting and trimming\<close>

lemma split_comma_nonempty: "split_comma s \<noteq> []"
  by (induction s) (auto split: list.splits)

lemma join_split_comma: "join_commas (split_comma s) = s"
proof (induction s)
  case Nil
  show ?case by simp
next
  case (Cons c cs)
  obtain p ps where sp: "split_comma cs = p # ps"
    using split_comma_nonempty [of cs] by (cases "split_comma cs") auto
  with Cons show ?case by (cases ps) auto
qed

lemma split_comma_pieces: "p \<in> set (split_comma s) \<Longrightarrow> CHR '','' \<notin> set p"
  by (induction s arbitrary: p) (auto split: list.splits if_splits)

lemma length_split_comma: "length (split_comma s) = Suc (count_list s CHR '','')"
  by (induction s) (auto split: list.splits simp: split_comma_nonempty)

lemma is_ws_code_units: "is_ws c = (of_char c \<in> {9, 10, 11, 12, 13, 32, 160 :: nat})"
proof -
  have "is_ws c = ((of_char c :: nat) \<in>
      of_char ` set [CHR 0x09, CHR 0x0A, CHR 0x0B, CHR 0x0C, CHR 0x0D, CHR 0x20, CHR 0xA0])"
    unfolding is_ws_def by (simp only: inj_image_mem_iff [OF inj_of_char])
  also have "\<dots> = (of_char c \<in> {9, 10, 11, 12, 13, 32, 160 :: nat})"
    by simp
  finally show ?thesis .
qed

lemma trim_decomposes:
  "\<exists>l r. s = l @ trim s @ r \<and> list_all is_ws l \<and> list_all is_ws r"
proof -
  let ?t = "dropWhile is_ws s"
  let ?r = "rev (takeWhile is_ws (rev ?t))"
  have "?t = trim s @ ?r"
    unfolding trim_def by (metis rev_append rev_rev_ident takeWhile_dropWhile_id)
  then have "s = takeWhile is_ws s @ trim s @ ?r"
    by (metis takeWhile_dropWhile_id)
  moreover have "list_all is_ws (takeWhile is_ws s)" "list_all is_ws ?r"
    by (auto simp: list_all_iff dest: set_takeWhileD)
  ultimately show ?thesis by blast
qed

lemma trim_ends:
  assumes "trim s \<noteq> []"
  shows "\<not> is_ws (hd (trim s))" and "\<not> is_ws (last (trim s))"
proof -
  let ?t = "dropWhile is_ws s"
  let ?u = "dropWhile is_ws (rev ?t)"
  have u: "?u \<noteq> []" using assms by (simp add: trim_def)
  then have "\<not> is_ws (hd ?u)" by (rule hd_dropWhile)
  then show "\<not> is_ws (last (trim s))"
    using u by (simp add: trim_def last_rev)
  have t: "?t \<noteq> []" using u by (auto dest: set_dropWhileD)
  then have h: "\<not> is_ws (hd ?t)" by (rule hd_dropWhile)
  have "?t = trim s @ rev (takeWhile is_ws (rev ?t))"
    unfolding trim_def by (metis rev_append rev_rev_ident takeWhile_dropWhile_id)
  then have "hd ?t = hd (trim s)"
    using assms by (metis hd_append2)
  with h show "\<not> is_ws (hd (trim s))" by simp
qed

text \<open>
  C5. For every raw tag specification (absent, a single string, or a list of strings)
  \<^verbatim>\<open>normalizeTagsFromQuery\<close> returns the candidates (the pieces of a single string,
  the elements of a list, nothing when absent), each trimmed, the empty ones discarded,
  duplicates removed keeping the first occurrence in first-seen order. The pieces of a
  string are split on commas: joined with commas they give the string back, there is one
  more piece than the string has commas, and no piece contains a comma. Trimming removes
  surrounding white space: the string is the trimmed one between two runs of white space,
  and the trimmed one neither starts nor ends with white space, white space being the
  code units 9 to 13, 32 and 160.
\<close>

theorem normalizeTagsFromQuery_refines_spec:
  "normalizeTagsFromQuery tgs = required_tags_spec tgs \<and>
   normalizeTagsFromQuery Absent = [] \<and>
   (\<forall>s. join_commas (split_comma s) = s \<and>
        length (split_comma s) = Suc (count_list s CHR '','') \<and>
        (\<forall>p \<in> set (split_comma s). CHR '','' \<notin> set p)) \<and>
   (\<forall>s. (\<exists>l r. s = l @ trim s @ r \<and> list_all is_ws l \<and> list_all is_ws r) \<and>
        (trim s = [] \<or> (\<not> is_ws (hd (trim s)) \<and> \<not> is_ws (last (trim s))))) \<and>
   (\<forall>c. is_ws c = (of_char c \<in> {9, 10, 11, 12, 13, 32, 160 :: nat}))"
proof (intro conjI allI ballI)
  show "normalizeTagsFromQuery tgs = required_tags_spec tgs"
    by (cases tgs)
      (simp_all add: normalizeTagsFromQuery_def required_tags_spec_def candidates_def
         normalize_loop_start)
  show "normalizeTagsFromQuery Absent = []"
    by (simp add: normalizeTagsFromQuery_def)
  show "join_commas (split_comma s) = s" for s
    by (rule join_split_comma)
  show "length (split_comma s) = Suc (count_list s CHR '','')" for s
    by (rule length_split_comma)
  show "CHR '','' \<notin> set p" if "p \<in> set (split_comma s)" for p s
    using that by (rule split_comma_pieces)
  show "\<exists>l r. s = l @ trim s @ r \<and> list_all is_ws l \<and> list_all is_ws r" for s
    by (rule trim_decomposes)
  show "trim s = [] \<or> (\<not> is_ws (hd (trim s)) \<and> \<not> is_ws (last (trim s)))" for s
    using trim_ends [of s] by blast
  show "is_ws c = (of_char c \<in> {9, 10, 11, 12, 13, 32, 160 :: nat})" for c
    by (rule is_ws_code_units)
qed

theorem normalizeTagsFromQuery_refines_spec_witness:
  "normalizeTagsFromQuery (Single '' backend, frontend ,,backend,x y '') =
     [''backend'', ''frontend'', ''x y''] \<and>
   normalizeTagsFromQuery (Many ['' a,b '', ''c'', ''a,b'', ''  '']) = [''a,b'', ''c''] \<and>
   split_comma '' backend, frontend ,,backend,x y '' =
     ['' backend'', '' frontend '', [], ''backend'', ''x y ''] \<and>
   trim '' frontend '' = ''frontend''"
proof -
  have "normalizeTagsFromQuery (Single '' backend, frontend ,,backend,x y '') =
      required_tags_spec (Single '' backend, frontend ,,backend,x y '')"
    using normalizeTagsFromQuery_refines_spec
      [of "Single '' backend, frontend ,,backend,x y ''"] by blast
  then have 1: "normalizeTagsFromQuery (Single '' backend, frontend ,,backend,x y '') =
     [''backend'', ''frontend'', ''x y'']"
    by (simp add: required_tags_spec_def candidates_def trim_def is_ws_def)
  have "normalizeTagsFromQuery (Many ['' a,b '', ''c'', ''a,b'', ''  '']) =
      required_tags_spec (Many ['' a,b '', ''c'', ''a,b'', ''  ''])"
    using normalizeTagsFromQuery_refines_spec
      [of "Many ['' a,b '', ''c'', ''a,b'', ''  '']"] by blast
  then have 2: "normalizeTagsFromQuery (Many ['' a,b '', ''c'', ''a,b'', ''  '']) =
      [''a,b'', ''c'']"
    by (simp add: required_tags_spec_def candidates_def trim_def is_ws_def)
  have 3: "split_comma '' backend, frontend ,,backend,x y '' =
     ['' backend'', '' frontend '', [], ''backend'', ''x y '']"
    by simp
  have 4: "trim '' frontend '' = ''frontend''"
    by (simp add: trim_def is_ws_def)
  from 1 2 3 4 show ?thesis by (intro conjI)
qed

section \<open>The availability query\<close>

lemma tables_issue [simp]:
  "users (issue c s) = users s" "tags (issue c s) = tags s"
  "userTags (issue c s) = userTags s" "busySlots (issue c s) = busySlots s"
  "calls (issue c s) = calls s @ [c]"
  by (simp_all add: issue_def)

lemma tag_of_issue [simp]: "tag_of (issue c s) = tag_of s"
  by (simp add: tag_of_def fun_eq_iff)

lemma tags_of_user_issue [simp]: "tags_of_user (issue c s) = tags_of_user s"
  by (simp add: tags_of_user_def fun_eq_iff)

lemma busySlots_of_user_issue [simp]: "busySlots_of_user (issue c s) = busySlots_of_user s"
  by (simp add: busySlots_of_user_def fun_eq_iff)

lemma include_relations_issue [simp]: "include_relations (issue c s) = include_relations s"
  by (simp add: include_relations_def fun_eq_iff)

lemma set_map_filter_conv: "set (List.map_filter f xs) = {y. \<exists>x \<in> set xs. f x = Some y}"
  by (induction xs) (auto split: option.splits)

lemma user_matches_issue_arg: "user_matches (issue c s) w u = user_matches s w u"
  by (induction s w u rule: user_matches.induct) simp_all

lemma user_matches_issue [simp]: "user_matches (issue c s) w = user_matches s w"
  by (simp add: fun_eq_iff user_matches_issue_arg)

lemma tags_some_iff_has_tag:
  "user_matches s (tags_some_tag_name name) u = has_tag s (u_id u) name"
  by (auto simp: has_tag_def tags_of_user_def set_map_filter_conv split: option.splits)

lemma busySlots_none_iff_free:
  "user_matches s (busySlots_none (BusySlotWhere (lt b) (gt a))) u = free_over s (u_id u) a b"
  by (auto simp: free_over_def overlaps_def busySlots_of_user_def)

lemma where_iff_spec_arg:
  "user_matches s (AND (map tags_some_tag_name T @ [busySlots_none (BusySlotWhere (lt b) (gt a))])) u
     = (matches_tags s T (u_id u) \<and> free_over s (u_id u) a b)"
  unfolding matches_tags_def
  by (simp only: user_matches.simps(1) set_append set_map ball_Un ball_simps
        tags_some_iff_has_tag busySlots_none_iff_free list.set ball_empty) auto

lemma where_iff_spec:
  "user_matches s (AND (map tags_some_tag_name T @ [busySlots_none (BusySlotWhere (lt b) (gt a))]))
     = (\<lambda>u. matches_tags s T (u_id u) \<and> free_over s (u_id u) a b)"
  by (simp only: fun_eq_iff where_iff_spec_arg) simp

lemma v_id_toApiUser [simp]: "v_id (toApiUser (include_relations s u)) = u_id u"
  by (simp add: toApiUser_def include_relations_def)

lemma getFreeUsers_valid:
  assumes "parseIsoDate parse (q_from input) ''from'' = Inr a"
    and "parseIsoDate parse (q_to input) ''to'' = Inr b" and "a < b"
  shows "getFreeUsers parse input s =
     (Inr (map (\<lambda>u. toApiUser (include_relations s u))
            (filter (\<lambda>u. matches_tags s (normalizeTagsFromQuery (q_tags input)) (u_id u)
                          \<and> free_over s (u_id u) a b) (users s))),
      issue UserFindMany s)"
  using assms
  by (simp add: getFreeUsers_def user_findMany_def Let_def where_iff_spec o_def)

lemma getFreeUsers_ids:
  assumes "parseIsoDate parse (q_from input) ''from'' = Inr a"
    and "parseIsoDate parse (q_to input) ''to'' = Inr b" and "a < b"
  shows "\<exists>vs. getFreeUsers parse input s = (Inr vs, issue UserFindMany s) \<and>
     v_id ` set vs = {u_id u | u. u \<in> set (users s) \<and>
         matches_tags s (normalizeTagsFromQuery (q_tags input)) (u_id u) \<and> free_over s (u_id u) a b}"
  unfolding getFreeUsers_valid [OF assms]
  by (auto simp: image_iff)

lemma scenario_window:
  "parseIsoDate scenario_parse (q_from backend_1230_13) ''from'' = Inr 1770381000000"
  "parseIsoDate scenario_parse (q_to backend_1230_13) ''to'' = Inr 1770382800000"
  by (simp_all add: parseIsoDate_def scenario_parse_def backend_1230_13_def trim_def is_ws_def)

lemma scenario_tags: "normalizeTagsFromQuery (q_tags backend_1230_13) = [''backend'']"
  by (simp add: backend_1230_13_def normalizeTagsFromQuery_def trim_def is_ws_def Let_def)

lemma scenario_window_11_12:
  "parseIsoDate scenario_parse (q_from backend_11_12) ''from'' = Inr 1770375600000"
  "parseIsoDate scenario_parse (q_to backend_11_12) ''to'' = Inr 1770379200000"
  by (simp_all add: parseIsoDate_def scenario_parse_def backend_11_12_def trim_def is_ws_def)

lemma scenario_tags_11_12: "normalizeTagsFromQuery (q_tags backend_11_12) = [''backend'']"
  by (simp add: backend_11_12_def normalizeTagsFromQuery_def trim_def is_ws_def Let_def)

lemma scenario_users:
  "users scenario_store =
     [\<lparr>u_id = ''usr_1'', u_name = ''User One'', u_email = ''user1@example.com'', u_phone = None\<rparr>,
      \<lparr>u_id = ''usr_2'', u_name = ''User Two'', u_email = ''user2@example.com'', u_phone = None\<rparr>,
      \<lparr>u_id = ''usr_3'', u_name = ''User Three'', u_email = ''user3@example.com'', u_phone = None\<rparr>,
      \<lparr>u_id = ''usr_4'', u_name = ''User Four'', u_email = ''user4@example.com'',
       u_phone = Some ''555''\<rparr>]"
  by (simp add: scenario_store_def)

lemma scenario_has_tag:
  "has_tag scenario_store ''usr_1'' ''backend''" "has_tag scenario_store ''usr_3'' ''backend''"
  "has_tag scenario_store ''usr_4'' ''backend''" "\<not> has_tag scenario_store ''usr_2'' ''backend''"
  by (simp_all add: has_tag_def tag_of_def scenario_store_def)

text \<open>
  C1. For a valid window \<open>[a, b)\<close>, every user that \<^verbatim>\<open>getFreeUsers\<close> returns is a
  user of the store none of whose busy slots \<open>S\<close> has \<open>S.from < b\<close> and \<open>a < S.to\<close>.
  A user who matches the tag filter and whose busy slots all merely touch the window
  (\<open>S.to = a\<close> or \<open>b = S.from\<close>) is returned, and so is a user who matches the tag
  filter and has no busy slot at all.
\<close>

theorem getFreeUsers_only_free:
  assumes "parseIsoDate parse (q_from input) ''from'' = Inr a"
    and "parseIsoDate parse (q_to input) ''to'' = Inr b" and "a < b"
  shows "\<exists>vs. fst (getFreeUsers parse input s) = Inr vs \<and>
     v_id ` set vs \<subseteq> u_id ` set (users s) \<and>
     (\<forall>u \<in> set (users s). u_id u \<in> v_id ` set vs \<longrightarrow>
        (\<forall>S \<in> set (busySlots s). b_userId S = u_id u \<longrightarrow> \<not> (b_from S < b \<and> a < b_to S))) \<and>
     (\<forall>u \<in> set (users s).
        matches_tags s (normalizeTagsFromQuery (q_tags input)) (u_id u) \<and>
        (\<forall>S \<in> set (busySlots s). b_userId S = u_id u \<longrightarrow> b_to S = a \<or> b = b_from S)
        \<longrightarrow> u_id u \<in> v_id ` set vs) \<and>
     (\<forall>u \<in> set (users s).
        matches_tags s (normalizeTagsFromQuery (q_tags input)) (u_id u) \<and>
        busySlots_of_user s (u_id u) = []
        \<longrightarrow> u_id u \<in> v_id ` set vs)"
proof -
  from getFreeUsers_ids [OF assms, of s] obtain vs where
    r: "getFreeUsers parse input s = (Inr vs, issue UserFindMany s)" and
    ids: "v_id ` set vs = {u_id u | u. u \<in> set (users s) \<and>
         matches_tags s (normalizeTagsFromQuery (q_tags input)) (u_id u) \<and> free_over s (u_id u) a b}"
    by blast
  have 1: "v_id ` set vs \<subseteq> u_id ` set (users s)"
    unfolding ids by blast
  have 2: "\<forall>u \<in> set (users s). u_id u \<in> v_id ` set vs \<longrightarrow>
        (\<forall>S \<in> set (busySlots s). b_userId S = u_id u \<longrightarrow> \<not> (b_from S < b \<and> a < b_to S))"
    unfolding ids by (auto simp: free_over_def overlaps_def)
  have 3: "\<forall>u \<in> set (users s).
        matches_tags s (normalizeTagsFromQuery (q_tags input)) (u_id u) \<and>
        (\<forall>S \<in> set (busySlots s). b_userId S = u_id u \<longrightarrow> b_to S = a \<or> b = b_from S)
        \<longrightarrow> u_id u \<in> v_id ` set vs"
    unfolding ids by (fastforce simp: free_over_def overlaps_def)
  have 4: "\<forall>u \<in> set (users s).
        matches_tags s (normalizeTagsFromQuery (q_tags input)) (u_id u) \<and>
        busySlots_of_user s (u_id u) = []
        \<longrightarrow> u_id u \<in> v_id ` set vs"
    unfolding ids by (fastforce simp: free_over_def busySlots_of_user_def filter_empty_conv)
  from r 1 2 3 4 show ?thesis by simp
qed

theorem getFreeUsers_only_free_witness:
  "\<exists>vs. fst (getFreeUsers scenario_parse backend_1230_13 scenario_store) = Inr vs \<and>
     ''usr_1'' \<in> v_id ` set vs \<and> ''usr_4'' \<in> v_id ` set vs \<and> ''usr_3'' \<notin> v_id ` set vs"
proof -
  have lt: "(1770381000000 :: int) < 1770382800000" by simp
  from getFreeUsers_only_free [OF scenario_window lt, of scenario_store]
  obtain vs where r: "fst (getFreeUsers scenario_parse backend_1230_13 scenario_store) = Inr vs"
    and only_free: "\<forall>u \<in> set (users scenario_store). u_id u \<in> v_id ` set vs \<longrightarrow>
        (\<forall>S \<in> set (busySlots scenario_store). b_userId S = u_id u \<longrightarrow>
           \<not> (b_from S < 1770382800000 \<and> 1770381000000 < b_to S))"
    and touching: "\<forall>u \<in> set (users scenario_store).
        matches_tags scenario_store (normalizeTagsFromQuery (q_tags backend_1230_13)) (u_id u) \<and>
        (\<forall>S \<in> set (busySlots scenario_store). b_userId S = u_id u \<longrightarrow>
           b_to S = 1770381000000 \<or> 1770382800000 = b_from S)
        \<longrightarrow> u_id u \<in> v_id ` set vs"
    and no_slots: "\<forall>u \<in> set (users scenario_store).
        matches_tags scenario_store (normalizeTagsFromQuery (q_tags backend_1230_13)) (u_id u) \<and>
        busySlots_of_user scenario_store (u_id u) = []
        \<longrightarrow> u_id u \<in> v_id ` set vs"
    by (elim exE conjE)
  have 1: "''usr_1'' \<in> v_id ` set vs"
    using touching
    by (simp add: scenario_users scenario_tags matches_tags_def scenario_has_tag)
       (simp add: scenario_store_def)
  have 4: "''usr_4'' \<in> v_id ` set vs"
    using no_slots
    by (simp add: scenario_users scenario_tags matches_tags_def scenario_has_tag)
       (simp add: scenario_store_def busySlots_of_user_def)
  have 3: "''usr_3'' \<notin> v_id ` set vs"
    using only_free
    by (simp add: scenario_users) (simp add: scenario_store_def)
  from r 1 4 3 show ?thesis by blast
qed

text \<open>
  C2. For a valid window and the required-tag set \<open>T\<close> derived from the query, a user
  of the store is returned if and only if the user has, for every name of \<open>T\<close>, a
  tag association of exactly that name, and is free over the window. When \<open>T\<close> is
  empty the result is exactly the set of free users.
\<close>

theorem getFreeUsers_tags_and_free:
  assumes "parseIsoDate parse (q_from input) ''from'' = Inr a"
    and "parseIsoDate parse (q_to input) ''to'' = Inr b" and "a < b"
  shows "\<exists>vs. fst (getFreeUsers parse input s) = Inr vs \<and>
     v_id ` set vs \<subseteq> u_id ` set (users s) \<and>
     (\<forall>u \<in> set (users s). u_id u \<in> v_id ` set vs \<longleftrightarrow>
        (\<forall>name \<in> set (normalizeTagsFromQuery (q_tags input)). has_tag s (u_id u) name) \<and>
        free_over s (u_id u) a b) \<and>
     (normalizeTagsFromQuery (q_tags input) = [] \<longrightarrow>
        v_id ` set vs = {u_id u | u. u \<in> set (users s) \<and> free_over s (u_id u) a b})"
proof -
  from getFreeUsers_ids [OF assms, of s] obtain vs where
    r: "getFreeUsers parse input s = (Inr vs, issue UserFindMany s)" and
    ids: "v_id ` set vs = {u_id u | u. u \<in> set (users s) \<and>
         matches_tags s (normalizeTagsFromQuery (q_tags input)) (u_id u) \<and> free_over s (u_id u) a b}"
    by blast
  have 1: "v_id ` set vs \<subseteq> u_id ` set (users s)"
    unfolding ids by blast
  have 2: "\<forall>u \<in> set (users s). u_id u \<in> v_id ` set vs \<longleftrightarrow>
        (\<forall>name \<in> set (normalizeTagsFromQuery (q_tags input)). has_tag s (u_id u) name) \<and>
        free_over s (u_id u) a b"
    unfolding ids matches_tags_def by auto
  have 3: "normalizeTagsFromQuery (q_tags input) = [] \<longrightarrow>
        v_id ` set vs = {u_id u | u. u \<in> set (users s) \<and> free_over s (u_id u) a b}"
    unfolding ids matches_tags_def by auto
  from r 1 2 3 show ?thesis by simp
qed

theorem getFreeUsers_tags_and_free_witness:
  "\<exists>vs. fst (getFreeUsers scenario_parse backend_11_12 scenario_store) = Inr vs \<and>
     ''usr_3'' \<in> v_id ` set vs \<and> ''usr_1'' \<notin> v_id ` set vs \<and> ''usr_2'' \<notin> v_id ` set vs"
proof -
  have lt: "(1770375600000 :: int) < 1770379200000" by simp
  from getFreeUsers_tags_and_free [OF scenario_window_11_12 lt, of scenario_store]
  obtain vs where r: "fst (getFreeUsers scenario_parse backend_11_12 scenario_store) = Inr vs"
    and iff: "\<forall>u \<in> set (users scenario_store). u_id u \<in> v_id ` set vs \<longleftrightarrow>
        (\<forall>name \<in> set (normalizeTagsFromQuery (q_tags backend_11_12)).
           has_tag scenario_store (u_id u) name) \<and>
        free_over scenario_store (u_id u) 1770375600000 1770379200000"
    by (elim exE conjE)
  have free: "free_over scenario_store ''usr_3'' 1770375600000 1770379200000"
    "\<not> free_over scenario_store ''usr_1'' 1770375600000 1770379200000"
    by (simp_all add: free_over_def overlaps_def scenario_store_def)
  from iff have "''usr_3'' \<in> v_id ` set vs" "''usr_1'' \<notin> v_id ` set vs" "''usr_2'' \<notin> v_id ` set vs"
    by (simp_all add: scenario_users scenario_tags_11_12 scenario_has_tag free)
  with r show ?thesis by blast
qed

text \<open>
  C3. When \<^verbatim>\<open>from\<close> or \<^verbatim>\<open>to\<close> is missing or does not parse, or the parsed
  \<^verbatim>\<open>from\<close> is not strictly before the parsed \<^verbatim>\<open>to\<close>, \<^verbatim>\<open>getFreeUsers\<close>
  fails with a \<^verbatim>\<open>BadRequest\<close> that does not depend on the store, and leaves the
  client as it was: no operation is issued and no result is produced.
\<close>

theorem getFreeUsers_rejects_bad_window:
  assumes "q_from input = None \<or> q_to input = None \<or>
     (\<exists>f. q_from input = Some f \<and> parse f = None) \<or>
     (\<exists>t. q_to input = Some t \<and> parse t = None) \<or>
     (\<exists>f t a b. q_from input = Some f \<and> q_to input = Some t \<and>
        parse f = Some a \<and> parse t = Some b \<and> b \<le> a)"
  shows "\<exists>msg. \<forall>s. getFreeUsers parse input s = (Inl (BadRequest msg), s)"
proof (cases "parseIsoDate parse (q_from input) ''from''")
  case (Inl e)
  then obtain msg where "e = BadRequest msg"
    by (auto simp: parseIsoDate_def split: option.splits if_splits)
  with Inl show ?thesis by (simp add: getFreeUsers_def)
next
  case fr: (Inr a)
  show ?thesis
  proof (cases "parseIsoDate parse (q_to input) ''to''")
    case (Inl e)
    then obtain msg where "e = BadRequest msg"
      by (auto simp: parseIsoDate_def split: option.splits if_splits)
    with fr Inl show ?thesis by (simp add: getFreeUsers_def)
  next
    case (Inr b)
    from fr obtain f where f: "q_from input = Some f" "parse f = Some a"
      by (auto simp: parseIsoDate_def split: option.splits if_splits)
    from Inr obtain t where t: "q_to input = Some t" "parse t = Some b"
      by (auto simp: parseIsoDate_def split: option.splits if_splits)
    from assms f t have "b \<le> a" by auto
    with fr Inr show ?thesis by (simp add: getFreeUsers_def)
  qed
qed

theorem getFreeUsers_rejects_bad_window_witness:
  "(\<exists>msg. getFreeUsers scenario_parse
      \<lparr>q_from = Some ''not-a-date'', q_to = Some ''2026-02-06T12:00:00Z'', q_tags = Absent\<rparr>
      scenario_store = (Inl (BadRequest msg), scenario_store)) \<and>
   (\<exists>msg. getFreeUsers scenario_parse
      \<lparr>q_from = Some ''2026-02-06T12:00:00Z'', q_to = Some ''2026-02-06T12:00:00Z'',
       q_tags = Absent\<rparr>
      scenario_store = (Inl (BadRequest msg), scenario_store))"
proof -
  have 1: "scenario_parse ''not-a-date'' = None"
    and 2: "scenario_parse ''2026-02-06T12:00:00Z'' = Some 1770379200000"
    by (simp_all add: scenario_parse_def)
  have "\<exists>msg. \<forall>s. getFreeUsers scenario_parse
      \<lparr>q_from = Some ''not-a-date'', q_to = Some ''2026-02-06T12:00:00Z'', q_tags = Absent\<rparr> s =
      (Inl (BadRequest msg), s)"
    by (rule getFreeUsers_rejects_bad_window) (simp add: 1)
  moreover have "\<exists>msg. \<forall>s. getFreeUsers scenario_parse
      \<lparr>q_from = Some ''2026-02-06T12:00:00Z'', q_to = Some ''2026-02-06T12:00:00Z'',
       q_tags = Absent\<rparr> s = (Inl (BadRequest msg), s)"
    by (rule getFreeUsers_rejects_bad_window) (simp add: 2)
  ultimately show ?thesis by blast
qed

text \<open>
  C6. Over the same store and window, when the required-tag set of one query is that of
  another with one more name \<open>x\<close>, every user view the first query returns is returned
  by the second.
\<close>

theorem getFreeUsers_tag_monotone:
  assumes "q_from input' = q_from input" and "q_to input' = q_to input"
    and "set (normalizeTagsFromQuery (q_tags input')) =
         insert x (set (normalizeTagsFromQuery (q_tags input)))"
    and "fst (getFreeUsers parse input' s) = Inr vs'"
  shows "\<exists>vs. fst (getFreeUsers parse input s) = Inr vs \<and> set vs' \<subseteq> set vs"
proof -
  from assms(4) obtain a b where
    w': "parseIsoDate parse (q_from input') ''from'' = Inr a"
        "parseIsoDate parse (q_to input') ''to'' = Inr b" "a < b"
    by (auto simp: getFreeUsers_def split: sum.splits if_splits)
  then have w: "parseIsoDate parse (q_from input) ''from'' = Inr a"
        "parseIsoDate parse (q_to input) ''to'' = Inr b" "a < b"
    using assms(1,2) by simp_all
  have "matches_tags s (normalizeTagsFromQuery (q_tags input')) uid \<Longrightarrow>
        matches_tags s (normalizeTagsFromQuery (q_tags input)) uid" for uid
    by (simp add: matches_tags_def assms(3))
  then show ?thesis
    using assms(4) unfolding getFreeUsers_valid [OF w'] getFreeUsers_valid [OF w]
    by auto
qed

theorem getFreeUsers_tag_monotone_witness:
  "\<exists>vs' vs. fst (getFreeUsers scenario_parse backend_1230_13 scenario_store) = Inr vs' \<and>
     fst (getFreeUsers scenario_parse (backend_1230_13\<lparr>q_tags := Absent\<rparr>) scenario_store) = Inr vs \<and>
     set vs' \<subseteq> set vs"
proof -
  have lt: "(1770381000000 :: int) < 1770382800000" by simp
  obtain vs' where r': "fst (getFreeUsers scenario_parse backend_1230_13 scenario_store) = Inr vs'"
    unfolding getFreeUsers_valid [OF scenario_window lt] by simp
  have T: "set (normalizeTagsFromQuery (q_tags backend_1230_13)) =
       insert ''backend'' (set (normalizeTagsFromQuery (q_tags (backend_1230_13\<lparr>q_tags := Absent\<rparr>))))"
    by (simp add: scenario_tags) (simp add: normalizeTagsFromQuery_def)
  have f: "q_from backend_1230_13 = q_from (backend_1230_13\<lparr>q_tags := Absent\<rparr>)"
    and t: "q_to backend_1230_13 = q_to (backend_1230_13\<lparr>q_tags := Absent\<rparr>)"
    by simp_all
  from getFreeUsers_tag_monotone [OF f t T r']
  obtain vs where
    "fst (getFreeUsers scenario_parse (backend_1230_13\<lparr>q_tags := Absent\<rparr>) scenario_store) = Inr vs"
    "set vs' \<subseteq> set vs"
    by (elim exE conjE)
  with r' show ?thesis by blast
qed

section \<open>Busy slots, deletion, tag updates and duplicate emails\<close>

lemma fold_max_ge: "x \<in> set ids \<Longrightarrow> x \<le> fold max ids (m::nat)"
proof (induction ids arbitrary: m)
  case Nil
  then show ?case by simp
next
  case (Cons y ys)
  have mono: "m \<le> fold max zs m" for zs and m :: nat
    by (induction zs arbitrary: m) (auto intro: order_trans [OF max.cobounded2])
  from Cons show ?case
    by (auto intro: order_trans [OF max.cobounded1 mono])
qed

lemma fresh_id_notin: "fresh_id ids \<notin> set ids"
  using fold_max_ge [of "fresh_id ids" ids 0] by (auto simp: fresh_id_def)

lemma find_id_None: "(find P xs = None) = (\<not> (\<exists>x \<in> set xs. P x))"
  by (auto simp: find_None_iff)

lemma parseIsoDate_error: "parseIsoDate parse v field = Inl e \<Longrightarrow> \<exists>msg. e = BadRequest msg"
  by (auto simp: parseIsoDate_def split: option.splits if_splits)

lemma markBusy_invalid:
  assumes "\<not> (\<exists>a b. window_ok parse input a b)"
  shows "\<exists>msg. markBusy parse uid input s = (Inl (BadRequest msg), s)"
proof (cases "parseIsoDate parse (m_from input) ''from''")
  case (Inl e)
  then show ?thesis using parseIsoDate_error [OF Inl] by (auto simp: markBusy_def)
next
  case fr: (Inr a)
  show ?thesis
  proof (cases "parseIsoDate parse (m_to input) ''to''")
    case (Inl e)
    then show ?thesis using fr parseIsoDate_error [OF Inl] by (auto simp: markBusy_def)
  next
    case (Inr b)
    with fr assms have "b \<le> a" by (auto simp: window_ok_def)
    with fr Inr show ?thesis by (simp add: markBusy_def)
  qed
qed

lemma markBusy_unknown_user:
  assumes "window_ok parse input a b" and "\<not> (\<exists>u \<in> set (users s). u_id u = uid)"
  shows "markBusy parse uid input s = (Inl (NotFound ''user not found''), issue UserFindUnique s)"
proof -
  from assms(2) have "find (\<lambda>u. u_id u = uid) (users s) = None"
    by (simp only: find_id_None not_False_eq_True)
  with assms(1) show ?thesis
    by (simp add: markBusy_def window_ok_def user_findUnique_def Let_def)
qed

lemma markBusy_known_user:
  assumes "window_ok parse input a b" and "\<exists>u \<in> set (users s). u_id u = uid"
  shows "markBusy parse uid input s =
     (Inr \<lparr>bv_id = fresh_id (map b_id (busySlots s)), bv_from = a, bv_to = b,
           bv_reason = m_reason input\<rparr>,
      (issue BusySlotCreate (issue UserFindUnique s))
        \<lparr>busySlots := busySlots s @
           [\<lparr>b_id = fresh_id (map b_id (busySlots s)), b_from = a, b_to = b,
             b_reason = m_reason input, b_userId = uid\<rparr>]\<rparr>)"
proof -
  from assms(2) obtain u where "find (\<lambda>u. u_id u = uid) (users s) = Some u"
    by (cases "find (\<lambda>u. u_id u = uid) (users s)") (auto simp: find_id_None)
  with assms(1) show ?thesis
    by (simp add: markBusy_def window_ok_def user_findUnique_def Let_def busySlot_create_def
        busy_to_view_def)
qed

text \<open>
  C7. \<^verbatim>\<open>markBusy\<close> checks in this order. When the two ends do not parse to a start
  strictly before the end (in particular a zero-length or inverted interval, which gives
  \<^verbatim>\<open>from must be before to\<close>) it fails with \<^verbatim>\<open>BadRequest\<close> and leaves the client
  as it was. Otherwise, when no user has the id, it fails with \<^verbatim>\<open>NotFound\<close>.
  Otherwise one busy slot with exactly the parsed start and end, the given reason and the
  user's id is appended under a new id, and the call returns that id with exactly the
  parsed start and end and the given reason. Whenever the call fails, the busy slots of
  the store are unchanged.
\<close>

theorem markBusy_outcomes:
  "(\<not> (\<exists>a b. window_ok parse input a b) \<longrightarrow>
      (\<exists>msg. markBusy parse uid input s = (Inl (BadRequest msg), s))) \<and>
   (\<forall>a b. parseIsoDate parse (m_from input) ''from'' = Inr a \<and>
          parseIsoDate parse (m_to input) ''to'' = Inr b \<and> \<not> a < b \<longrightarrow>
      markBusy parse uid input s = (Inl (BadRequest ''from must be before to''), s)) \<and>
   (\<forall>a b. window_ok parse input a b \<and> \<not> (\<exists>u \<in> set (users s). u_id u = uid) \<longrightarrow>
      fst (markBusy parse uid input s) = Inl (NotFound ''user not found'') \<and>
      busySlots (snd (markBusy parse uid input s)) = busySlots s) \<and>
   (\<forall>a b. window_ok parse input a b \<and> (\<exists>u \<in> set (users s). u_id u = uid) \<longrightarrow>
      (\<exists>slot. fst (markBusy parse uid input s) =
           Inr \<lparr>bv_id = b_id slot, bv_from = a, bv_to = b, bv_reason = m_reason input\<rparr> \<and>
         b_from slot = a \<and> b_to slot = b \<and> b_reason slot = m_reason input \<and>
         b_userId slot = uid \<and> b_id slot \<notin> b_id ` set (busySlots s) \<and>
         busySlots (snd (markBusy parse uid input s)) = busySlots s @ [slot])) \<and>
   (\<forall>e. fst (markBusy parse uid input s) = Inl e \<longrightarrow>
      busySlots (snd (markBusy parse uid input s)) = busySlots s)"
proof (intro conjI allI impI)
  assume "\<not> (\<exists>a b. window_ok parse input a b)"
  then show "\<exists>msg. markBusy parse uid input s = (Inl (BadRequest msg), s)"
    by (rule markBusy_invalid)
next
  fix a b
  assume "parseIsoDate parse (m_from input) ''from'' = Inr a \<and>
          parseIsoDate parse (m_to input) ''to'' = Inr b \<and> \<not> a < b"
  then show "markBusy parse uid input s = (Inl (BadRequest ''from must be before to''), s)"
    by (simp add: markBusy_def)
next
  fix a b
  assume h: "window_ok parse input a b \<and> \<not> (\<exists>u \<in> set (users s). u_id u = uid)"
  then have m: "markBusy parse uid input s = (Inl (NotFound ''user not found''), issue UserFindUnique s)"
    by (intro markBusy_unknown_user [of parse input a b]) blast+
  show "fst (markBusy parse uid input s) = Inl (NotFound ''user not found'')"
    by (simp add: m)
  show "busySlots (snd (markBusy parse uid input s)) = busySlots s"
    by (simp add: m issue_def)
next
  fix a b
  assume h: "window_ok parse input a b \<and> (\<exists>u \<in> set (users s). u_id u = uid)"
  let ?slot = "\<lparr>b_id = fresh_id (map b_id (busySlots s)), b_from = a, b_to = b,
             b_reason = m_reason input, b_userId = uid\<rparr>"
  from h have m: "markBusy parse uid input s =
     (Inr \<lparr>bv_id = fresh_id (map b_id (busySlots s)), bv_from = a, bv_to = b,
           bv_reason = m_reason input\<rparr>,
      (issue BusySlotCreate (issue UserFindUnique s))\<lparr>busySlots := busySlots s @ [?slot]\<rparr>)"
    by (intro markBusy_known_user [of parse input a b]) blast+
  have "b_id ?slot \<notin> b_id ` set (busySlots s)"
    using fresh_id_notin [of "map b_id (busySlots s)"] by simp
  then show "\<exists>slot. fst (markBusy parse uid input s) =
           Inr \<lparr>bv_id = b_id slot, bv_from = a, bv_to = b, bv_reason = m_reason input\<rparr> \<and>
         b_from slot = a \<and> b_to slot = b \<and> b_reason slot = m_reason input \<and>
         b_userId slot = uid \<and> b_id slot \<notin> b_id ` set (busySlots s) \<and>
         busySlots (snd (markBusy parse uid input s)) = busySlots s @ [slot]"
    unfolding m by (intro exI [of _ ?slot]) simp
next
  fix e
  assume e: "fst (markBusy parse uid input s) = Inl e"
  show "busySlots (snd (markBusy parse uid input s)) = busySlots s"
  proof (cases "\<exists>a b. window_ok parse input a b")
    case False
    from markBusy_invalid [OF False, of uid s] show ?thesis by auto
  next
    case True
    then obtain a b where w: "window_ok parse input a b" by blast
    show ?thesis
    proof (cases "\<exists>u \<in> set (users s). u_id u = uid")
      case True
      from markBusy_known_user [OF w True] e show ?thesis by simp
    next
      case False
      from markBusy_unknown_user [OF w False] show ?thesis by (simp add: issue_def)
    qed
  qed
qed

text \<open>
  C9. \<^verbatim>\<open>delete\<close> answers \<^verbatim>\<open>NotFound\<close> (\<^verbatim>\<open>user not found\<close>) for every failure of
  \<^verbatim>\<open>user.delete\<close>: any failure of the store during the call as well as a missing
  record; no error of the store is ever propagated, and the call succeeds exactly when
  the store does not fail and the user exists.
\<close>

theorem delete_reports_NotFound:
  "(\<forall>e. fault = Some e \<longrightarrow> fst (delete fault uid s) = Inl (NotFound ''user not found'')) \<and>
   (\<forall>e. fst (user_delete fault uid s) = Inl e \<longrightarrow>
        fst (delete fault uid s) = Inl (NotFound ''user not found'')) \<and>
   (\<forall>e. fst (delete fault uid s) \<noteq> Inl (Prisma e)) \<and>
   (fst (delete fault uid s) = Inr () \<longleftrightarrow>
      fault = None \<and> (\<exists>u \<in> set (users s). u_id u = uid))"
  by (auto simp: delete_def user_delete_def Let_def split: option.splits)

subsection \<open>What the write operations leave alone\<close>

lemma find_SomeD: "find P xs = Some x \<Longrightarrow> x \<in> set xs \<and> P x"
  by (induction xs) (auto split: if_splits)

lemma userTag_row_eta: "\<lparr>ut_userId = ut_userId ut, ut_tagId = ut_tagId ut\<rparr> = ut"
  by (cases ut) simp

lemma tag_connectOrCreate_tables [simp]:
  "users (snd (tag_connectOrCreate n s)) = users s"
  "userTags (snd (tag_connectOrCreate n s)) = userTags s"
  "busySlots (snd (tag_connectOrCreate n s)) = busySlots s"
  "calls (snd (tag_connectOrCreate n s)) = calls s"
  by (simp_all add: tag_connectOrCreate_def Let_def split: option.splits)

lemma tag_connectOrCreate_tags:
  "tags (snd (tag_connectOrCreate n s)) =
     (if n \<in> t_name ` set (tags s) then tags s else tags s @ [fst (tag_connectOrCreate n s)])"
  by (auto simp: tag_connectOrCreate_def Let_def find_None_iff image_iff split: option.splits
      dest: find_SomeD)

lemma tag_connectOrCreate_fst:
  "fst (tag_connectOrCreate n s) \<in> set (tags (snd (tag_connectOrCreate n s)))"
  "t_name (fst (tag_connectOrCreate n s)) = n"
  by (auto simp: tag_connectOrCreate_def Let_def split: option.splits dest: find_SomeD)

lemma tag_connectOrCreate_new_id:
  "n \<notin> t_name ` set (tags s) \<Longrightarrow> t_id (fst (tag_connectOrCreate n s)) \<notin> t_id ` set (tags s)"
  using fresh_id_notin [of "map t_id (tags s)"]
  by (auto simp: tag_connectOrCreate_def Let_def find_None_iff image_iff split: option.splits
      dest: find_SomeD)

lemma userTag_put_tables [simp]:
  "users (userTag_put uid tid s) = users s"
  "tags (userTag_put uid tid s) = tags s"
  "busySlots (userTag_put uid tid s) = busySlots s"
  "calls (userTag_put uid tid s) = calls s"
  by (simp_all add: userTag_put_def)

lemma userTag_put_set:
  "set (userTags (userTag_put uid tid s)) =
     insert \<lparr>ut_userId = uid, ut_tagId = tid\<rparr> (set (userTags s))"
  by (auto simp: userTag_put_def userTag_row_eta)

lemma upsert_tags_Cons:
  "upsert_tags uid (name # names) tx =
     upsert_tags uid names
       (userTag_upsert uid (t_id (fst (tag_upsert name tx))) (snd (tag_upsert name tx)))"
  by (simp add: split_def Let_def)

lemma upsert_step_tables [simp]:
  "users (userTag_upsert uid tid s) = users s"
  "tags (userTag_upsert uid tid s) = tags s"
  "busySlots (userTag_upsert uid tid s) = busySlots s"
  "calls (userTag_upsert uid tid s) = calls s @ [UserTagUpsert]"
  "users (snd (tag_upsert n s)) = users s"
  "userTags (snd (tag_upsert n s)) = userTags s"
  "busySlots (snd (tag_upsert n s)) = busySlots s"
  "calls (snd (tag_upsert n s)) = calls s @ [TagUpsert]"
  by (simp_all add: userTag_upsert_def tag_upsert_def)

lemma upsert_tags_tables [simp]:
  "users (upsert_tags uid names tx) = users tx"
  "busySlots (upsert_tags uid names tx) = busySlots tx"
  by (induction names arbitrary: tx) (simp_all add: upsert_tags_Cons del: upsert_tags.simps(2))

lemma upsert_tags_calls:
  "calls (upsert_tags uid names tx) =
     calls tx @ concat (map (\<lambda>name. [TagUpsert, UserTagUpsert]) names)"
  by (induction names arbitrary: tx) (simp_all add: upsert_tags_Cons del: upsert_tags.simps(2))

lemma tag_upsert_tags_mono: "set (tags s) \<subseteq> set (tags (snd (tag_upsert n s)))"
  by (auto simp: tag_upsert_def tag_connectOrCreate_tags)

lemma tag_upsert_has_name: "n \<in> t_name ` set (tags (snd (tag_upsert n s)))"
  unfolding tag_upsert_def
  using tag_connectOrCreate_fst [of n "issue TagUpsert s"] by (metis image_eqI)

lemma upsert_tags_tags_mono: "set (tags tx) \<subseteq> set (tags (upsert_tags uid names tx))"
proof (induction names arbitrary: tx)
  case Nil
  show ?case by simp
next
  case (Cons name names)
  have "set (tags tx) \<subseteq> set (tags (snd (tag_upsert name tx)))"
    by (rule tag_upsert_tags_mono)
  also have "\<dots> = set (tags (userTag_upsert uid (t_id (fst (tag_upsert name tx)))
                 (snd (tag_upsert name tx))))"
    by simp
  also have "\<dots> \<subseteq> set (tags (upsert_tags uid (name # names) tx))"
    unfolding upsert_tags_Cons by (rule Cons.IH)
  finally show ?case .
qed

lemma upsert_tags_names: "set names \<subseteq> t_name ` set (tags (upsert_tags uid names tx))"
proof (induction names arbitrary: tx)
  case Nil
  show ?case by simp
next
  case (Cons name names)
  let ?tx = "userTag_upsert uid (t_id (fst (tag_upsert name tx))) (snd (tag_upsert name tx))"
  have "name \<in> t_name ` set (tags ?tx)"
    using tag_upsert_has_name [of name tx] by simp
  then have "name \<in> t_name ` set (tags (upsert_tags uid names ?tx))"
    using upsert_tags_tags_mono [of ?tx uid names] by blast
  moreover have "set names \<subseteq> t_name ` set (tags (upsert_tags uid names ?tx))"
    by (rule Cons.IH)
  ultimately show ?case
    unfolding upsert_tags_Cons by simp
qed

lemma userTag_deleteMany_in_tables [simp]:
  "users (userTag_deleteMany_in uid names s) = users s"
  "tags (userTag_deleteMany_in uid names s) = tags s"
  "busySlots (userTag_deleteMany_in uid names s) = busySlots s"
  "calls (userTag_deleteMany_in uid names s) = calls s @ [UserTagDeleteMany]"
  by (simp_all add: userTag_deleteMany_in_def Let_def)

lemma tag_of_cong: "tags s = tags s' \<Longrightarrow> tag_of s = tag_of s'"
  by (simp add: tag_of_def fun_eq_iff)

lemma has_tag_after_deleteMany_in:
  "has_tag (userTag_deleteMany_in uid names s) uid' n =
     (has_tag s uid' n \<and> \<not> (uid' = uid \<and> n \<in> set names))"
proof -
  have t: "tag_of (userTag_deleteMany_in uid names s) = tag_of s"
    by (rule tag_of_cong) simp
  show ?thesis
    unfolding has_tag_def t
    by (auto simp: userTag_deleteMany_in_def Let_def split: option.splits)
qed

lemma has_tag_issue [simp]: "has_tag (issue c s) = has_tag s"
  by (simp add: has_tag_def fun_eq_iff)

lemma set_tag_names_of_user: "set (map t_name (tags_of_user s uid)) = {n. has_tag s uid n}"
  by (auto simp: tags_of_user_def has_tag_def set_map_filter_conv split: option.splits)

lemma v_tags_toApiUser: "set (v_tags (toApiUser (include_relations s u))) = {n. has_tag s (u_id u) n}"
  by (simp add: toApiUser_def include_relations_def set_tag_names_of_user del: set_map)

text \<open>The two outcomes of \<^verbatim>\<open>updateTags\<close>.\<close>

lemma updateTags_known_user:
  assumes "find (\<lambda>u. u_id u = uid) (users s) = Some u"
  shows "updateTags uid input s =
     (Inr (toApiUser (include_relations (after_updateTags uid input s) u)),
      after_updateTags uid input s)"
  using assms
  by (simp add: updateTags_def transaction_def user_findUnique_def user_findUniqueOrThrow_def
      after_updateTags_def Let_def)

lemma updateTags_unknown_user:
  assumes "find (\<lambda>u. u_id u = uid) (users s) = None"
  shows "updateTags uid input s = (Inl (NotFound ''user not found''), issue UserFindUnique s)"
  using assms
  by (simp add: updateTags_def transaction_def user_findUnique_def Let_def issue_def)

lemma known_user_find:
  "uid \<in> u_id ` set (users s) \<Longrightarrow> \<exists>u. find (\<lambda>u. u_id u = uid) (users s) = Some u \<and> u_id u = uid"
  by (cases "find (\<lambda>u. u_id u = uid) (users s)") (auto simp: find_None_iff dest: find_SomeD)

lemma after_updateTags_tags:
  "set (tags s) \<subseteq> set (tags (after_updateTags uid input s))"
  using upsert_tags_tags_mono [of "issue UserFindUnique s" uid "add_names input"]
  by (simp add: after_updateTags_def add_names_def Let_def)

lemma after_updateTags_removed:
  "n \<in> set (remove_names input) \<Longrightarrow> \<not> has_tag (after_updateTags uid input s) uid n"
  by (auto simp: after_updateTags_def remove_names_def Let_def has_tag_after_deleteMany_in)

lemma after_updateTags_remove_only:
  assumes "add_names input = []"
  shows "tags (after_updateTags uid input s) = tags s"
    and "has_tag (after_updateTags uid input s) uid' n =
           (has_tag s uid' n \<and> \<not> (uid' = uid \<and> n \<in> set (remove_names input)))"
  using assms
  by (auto simp: after_updateTags_def add_names_def remove_names_def Let_def
      has_tag_after_deleteMany_in)

lemma filter_all: "(\<And>x. x \<in> set xs \<Longrightarrow> P x) \<Longrightarrow> filter P xs = xs"
  by (induction xs) auto

lemma after_updateTags_noop:
  assumes "add_names input = []" and "\<forall>n \<in> set (remove_names input). \<not> has_tag s uid n"
  shows "userTags (after_updateTags uid input s) = userTags s"
proof (cases "remove_names input = []")
  case True
  with assms(1) show ?thesis
    by (simp add: after_updateTags_def add_names_def remove_names_def Let_def)
next
  case False
  have "filter (\<lambda>ut. \<not> (ut_userId ut = uid \<and>
                (case tag_of s ut of Some t \<Rightarrow> t_name t \<in> set (remove_names input) | None \<Rightarrow> False)))
          (userTags s) = userTags s"
    using assms(2) by (intro filter_all) (auto simp: has_tag_def split: option.splits)
  with assms(1) False show ?thesis
    unfolding add_names_def remove_names_def
    by (simp add: after_updateTags_def Let_def userTag_deleteMany_in_def)
qed

text \<open>
  C8. Every tag row of the catalog before \<^verbatim>\<open>updateTags\<close> is in the catalog
  afterwards, whatever the input. For an existing user, no name of the remove list is held
  by the user afterwards. When nothing is added, the catalog is unchanged, the tags held
  afterwards are those held before except the removed names of this user, and removing
  only names the user does not hold leaves every association as it was.
\<close>

theorem updateTags_keeps_catalog:
  "(\<forall>t \<in> set (tags s). t \<in> set (tags (snd (updateTags uid input s)))) \<and>
   (uid \<in> u_id ` set (users s) \<longrightarrow>
      (\<forall>n \<in> set (remove_names input). \<not> has_tag (snd (updateTags uid input s)) uid n)) \<and>
   (uid \<in> u_id ` set (users s) \<and> add_names input = [] \<longrightarrow>
      tags (snd (updateTags uid input s)) = tags s \<and>
      (\<forall>uid' n. has_tag (snd (updateTags uid input s)) uid' n \<longleftrightarrow>
         has_tag s uid' n \<and> \<not> (uid' = uid \<and> n \<in> set (remove_names input))) \<and>
      ((\<forall>n \<in> set (remove_names input). \<not> has_tag s uid n) \<longrightarrow>
         userTags (snd (updateTags uid input s)) = userTags s))"
proof (cases "find (\<lambda>u. u_id u = uid) (users s)")
  case None
  then have "uid \<notin> u_id ` set (users s)"
    by (auto simp: find_None_iff)
  then show ?thesis
    by (simp add: updateTags_unknown_user [OF None])
next
  case (Some u)
  have s': "snd (updateTags uid input s) = after_updateTags uid input s"
    by (simp add: updateTags_known_user [OF Some])
  show ?thesis
    unfolding s'
    using after_updateTags_tags [of s uid input] after_updateTags_removed [of _ input uid s]
      after_updateTags_remove_only [of input uid s] after_updateTags_noop [of input s uid]
    by blast
qed

subsection \<open>Attaching tags under the primary key of \<^verbatim>\<open>Tag\<close>\<close>

lemma find_distinct_key:
  "distinct (map f xs) \<Longrightarrow> (find (\<lambda>x. f x = k) xs = Some y) = (y \<in> set xs \<and> f y = k)"
  by (induction xs) (auto simp: image_iff)

lemma tag_of_distinct:
  "distinct (map t_id (tags s)) \<Longrightarrow>
     (tag_of s ut = Some t) = (t \<in> set (tags s) \<and> t_id t = ut_tagId ut)"
  unfolding tag_of_def by (rule find_distinct_key)

lemma has_tag_rel:
  assumes "distinct (map t_id (tags s))"
  shows "has_tag s uid n =
     (\<exists>ut \<in> set (userTags s). ut_userId ut = uid \<and>
        (\<exists>t \<in> set (tags s). t_id t = ut_tagId ut \<and> t_name t = n))"
proof -
  have "(case tag_of s ut of Some t \<Rightarrow> t_name t = n | None \<Rightarrow> False) =
        (\<exists>t \<in> set (tags s). t_id t = ut_tagId ut \<and> t_name t = n)" for ut
  proof -
    have "(case tag_of s ut of Some t \<Rightarrow> t_name t = n | None \<Rightarrow> False) =
          (\<exists>t. tag_of s ut = Some t \<and> t_name t = n)"
      by (simp split: option.split)
    also have "\<dots> = (\<exists>t \<in> set (tags s). t_id t = ut_tagId ut \<and> t_name t = n)"
      unfolding tag_of_distinct [OF assms] by blast
    finally show ?thesis .
  qed
  then show ?thesis by (simp add: has_tag_def)
qed

lemma upsert_step_facts:
  fixes name :: string
  assumes "distinct (map t_id (tags tx))"
  defines "t \<equiv> fst (tag_upsert name tx)"
  shows "set (tags (upsert_step uid name tx)) = insert t (set (tags tx))"
    and "distinct (map t_id (tags (upsert_step uid name tx)))"
    and "set (userTags (upsert_step uid name tx)) =
           insert \<lparr>ut_userId = uid, ut_tagId = t_id t\<rparr> (set (userTags tx))"
    and "t_name t = name"
proof -
  let ?s = "issue TagUpsert tx"
  have t: "t = fst (tag_connectOrCreate name ?s)"
    by (simp add: t_def tag_upsert_def)
  have tg: "tags (upsert_step uid name tx) = tags (snd (tag_connectOrCreate name ?s))"
    by (simp add: upsert_step_def tag_upsert_def userTag_upsert_def)
  have d: "distinct (map t_id (tags tx))"
    by (rule assms(1))
  show "t_name t = name"
    unfolding t by (rule tag_connectOrCreate_fst)
  show "set (tags (upsert_step uid name tx)) = insert t (set (tags tx))"
  proof (cases "name \<in> t_name ` set (tags ?s)")
    case True
    then have "tags (snd (tag_connectOrCreate name ?s)) = tags tx"
      by (simp add: tag_connectOrCreate_tags)
    moreover from this have "t \<in> set (tags tx)"
      using tag_connectOrCreate_fst(1) [of name ?s] t by simp
    ultimately show ?thesis unfolding tg by auto
  next
    case False
    then show ?thesis unfolding tg t by (simp add: tag_connectOrCreate_tags)
  qed
  show "distinct (map t_id (tags (upsert_step uid name tx)))"
  proof (cases "name \<in> t_name ` set (tags ?s)")
    case True
    then show ?thesis unfolding tg using d by (simp add: tag_connectOrCreate_tags)
  next
    case False
    with tag_connectOrCreate_new_id [of name ?s]
    show ?thesis unfolding tg using d by (simp add: tag_connectOrCreate_tags)
  qed
  show "set (userTags (upsert_step uid name tx)) =
           insert \<lparr>ut_userId = uid, ut_tagId = t_id t\<rparr> (set (userTags tx))"
    by (simp add: upsert_step_def userTag_upsert_def userTag_put_set t_def)
qed

lemma upsert_step_inv:
  assumes "attach_inv uid' tx"
  shows "attach_inv uid' (upsert_step uid name tx)"
proof -
  have d: "distinct (map t_id (tags tx))"
    using assms by (simp add: attach_inv_def)
  show ?thesis
    unfolding attach_inv_def
    using upsert_step_facts(1-3) [OF d, where uid = uid and name = name] assms
    by (auto simp: attach_inv_def)
qed

lemma upsert_step_held:
  assumes "attach_inv uid' tx"
  shows "has_tag (upsert_step uid name tx) uid' n =
     (has_tag tx uid' n \<or> (uid' = uid \<and> n = name))"
proof -
  let ?t = "fst (tag_upsert name tx)"
  let ?tx = "upsert_step uid name tx"
  have d: "distinct (map t_id (tags tx))"
    and nd: "\<forall>ut \<in> set (userTags tx). ut_userId ut = uid' \<longrightarrow> ut_tagId ut \<in> t_id ` set (tags tx)"
    using assms by (simp_all add: attach_inv_def)
  note f = upsert_step_facts(1-3) [OF d, where uid = uid and name = name]
  note f4 = upsert_step_facts(4) [OF d, where name = name]
  have inj: "inj_on t_id (set (tags ?tx))"
    using f(2) by (simp add: distinct_map)
  have same: "t' = t''" if "t' \<in> set (tags ?tx)" "t'' \<in> set (tags ?tx)" "t_id t' = t_id t''"
    for t' t''
    using inj that by (auto dest: inj_onD)
  have sub: "set (tags tx) \<subseteq> set (tags ?tx)" and tin: "?t \<in> set (tags ?tx)"
    using f(1) by auto
  show ?thesis
  proof
    assume "has_tag ?tx uid' n"
    then obtain ut t' where ut: "ut \<in> set (userTags ?tx)" "ut_userId ut = uid'"
      and t': "t' \<in> set (tags ?tx)" "t_id t' = ut_tagId ut" "t_name t' = n"
      unfolding has_tag_rel [OF f(2)] by blast
    show "has_tag tx uid' n \<or> (uid' = uid \<and> n = name)"
    proof (cases "ut \<in> set (userTags tx)")
      case True
      with nd ut(2) obtain t'' where t'': "t'' \<in> set (tags tx)" "t_id t'' = ut_tagId ut"
        by auto
      with same [of t' t''] t' sub have "t' = t''" by auto
      with True ut(2) t'' t'(3) show ?thesis
        unfolding has_tag_rel [OF d] by blast
    next
      case False
      with ut(1) f(3) have new: "ut = \<lparr>ut_userId = uid, ut_tagId = t_id ?t\<rparr>" by auto
      then have "ut_tagId ut = t_id ?t" and "uid' = uid"
        using ut(2) by simp_all
      with same [of t' ?t] t' tin have "t' = ?t" by auto
      with f4 t'(3) \<open>uid' = uid\<close> show ?thesis by simp
    qed
  next
    assume "has_tag tx uid' n \<or> (uid' = uid \<and> n = name)"
    then show "has_tag ?tx uid' n"
    proof
      assume "has_tag tx uid' n"
      then show ?thesis
        unfolding has_tag_rel [OF d] has_tag_rel [OF f(2)] using sub f(3) by blast
    next
      assume new: "uid' = uid \<and> n = name"
      have "\<lparr>ut_userId = uid, ut_tagId = t_id ?t\<rparr> \<in> set (userTags ?tx)"
        using f(3) by simp
      with tin f4 new show ?thesis
        unfolding has_tag_rel [OF f(2)] by force
    qed
  qed
qed

lemma upsert_tags_step: "upsert_tags uid (name # names) tx = upsert_tags uid names (upsert_step uid name tx)"
  by (simp add: upsert_tags_Cons upsert_step_def del: upsert_tags.simps)

lemma upsert_tags_inv:
  "attach_inv uid' tx \<Longrightarrow> attach_inv uid' (upsert_tags uid names tx)"
proof (induction names arbitrary: tx)
  case Nil
  then show ?case by simp
next
  case (Cons name names)
  from Cons.IH [OF upsert_step_inv [OF Cons.prems, where uid = uid and name = name]]
  show ?case unfolding upsert_tags_step .
qed

lemma upsert_tags_held:
  "attach_inv uid' tx \<Longrightarrow>
     has_tag (upsert_tags uid names tx) uid' n =
       (has_tag tx uid' n \<or> (uid' = uid \<and> n \<in> set names))"
proof (induction names arbitrary: tx)
  case Nil
  show ?case by simp
next
  case (Cons name names)
  from Cons.IH [OF upsert_step_inv [OF Cons.prems, where uid = uid and name = name]]
  show ?case
    unfolding upsert_tags_step by (auto simp: upsert_step_held [OF Cons.prems])
qed

lemma tag_refs_ok_attach_inv: "tag_refs_ok s \<Longrightarrow> attach_inv uid' s"
  by (simp add: tag_refs_ok_def attach_inv_def)

lemma attach_inv_issue [simp]: "attach_inv uid' (issue c s) = attach_inv uid' s"
  by (simp add: attach_inv_def)

lemma upsert_tags_other_rows:
  "filter (\<lambda>ut. \<not> ut_userId ut = uid) (userTags (upsert_tags uid names tx)) =
     filter (\<lambda>ut. \<not> ut_userId ut = uid) (userTags tx)"
proof (induction names arbitrary: tx)
  case Nil
  show ?case by simp
next
  case (Cons name names)
  have "filter (\<lambda>ut. \<not> ut_userId ut = uid) (userTags (upsert_step uid name tx)) =
        filter (\<lambda>ut. \<not> ut_userId ut = uid) (userTags tx)"
    by (simp add: upsert_step_def userTag_upsert_def userTag_put_def)
  with Cons.IH [of "upsert_step uid name tx"] show ?case
    unfolding upsert_tags_step by simp
qed

text \<open>
  C10. For an existing user, \<^verbatim>\<open>updateTags\<close> issues the upserts of all names of the
  add list before the one \<^verbatim>\<open>deleteMany\<close> of the remove list, which acts on the client
  \<open>mid\<close> that the upserts leave. A name that is, after normalisation, in both lists
  is not held by the user afterwards and is not among the tags of the returned view,
  while a tag of that name is in the catalog. On a store whose associations refer to
  tags with unique ids, every name of the add list is held by the user in \<open>mid\<close>, the
  tags held in \<open>mid\<close> are those held before and the added ones of this user, and the
  tags held afterwards (and shown in the view) are these without the removed names of
  this user.
\<close>

theorem updateTags_add_then_remove:
  assumes "uid \<in> u_id ` set (users s)"
    and "x \<in> set (add_names input)" and "x \<in> set (remove_names input)"
  shows "\<exists>view s' mid. updateTags uid input s = (Inr view, s') \<and>
     v_id view = uid \<and> x \<notin> set (v_tags view) \<and> \<not> has_tag s' uid x \<and>
     x \<in> t_name ` set (tags s') \<and>
     calls s' = calls s @ [UserFindUnique] @
        concat (map (\<lambda>name. [TagUpsert, UserTagUpsert]) (add_names input)) @
        [UserTagDeleteMany, UserFindUniqueOrThrow] \<and>
     calls mid = calls s @ [UserFindUnique] @
        concat (map (\<lambda>name. [TagUpsert, UserTagUpsert]) (add_names input)) \<and>
     s' = issue UserFindUniqueOrThrow (userTag_deleteMany_in uid (remove_names input) mid) \<and>
     (tag_refs_ok s \<longrightarrow>
        (\<forall>n \<in> set (add_names input). has_tag mid uid n) \<and>
        (\<forall>uid' n. has_tag mid uid' n \<longleftrightarrow>
           has_tag s uid' n \<or> (uid' = uid \<and> n \<in> set (add_names input))) \<and>
        (\<forall>uid' n. has_tag s' uid' n \<longleftrightarrow>
           (has_tag s uid' n \<or> (uid' = uid \<and> n \<in> set (add_names input))) \<and>
           \<not> (uid' = uid \<and> n \<in> set (remove_names input))) \<and>
        set (v_tags view) =
          {n. (has_tag s uid n \<or> n \<in> set (add_names input)) \<and>
              n \<notin> set (remove_names input)})"
proof -
  from known_user_find [OF assms(1)] obtain u where
    u: "find (\<lambda>u. u_id u = uid) (users s) = Some u" and id: "u_id u = uid"
    by blast
  let ?s' = "after_updateTags uid input s"
  let ?mid = "upsert_tags uid (add_names input) (issue UserFindUnique s)"
  let ?view = "toApiUser (include_relations ?s' u)"
  have r: "updateTags uid input s = (Inr ?view, ?s')"
    by (rule updateTags_known_user [OF u])
  have held: "\<not> has_tag ?s' uid x"
    by (rule after_updateTags_removed [OF assms(3)])
  have view: "x \<notin> set (v_tags ?view)"
    using held by (simp add: v_tags_toApiUser id del: set_map)
  have "x \<in> t_name ` set (tags ?mid)"
    using upsert_tags_names [of "add_names input" uid "issue UserFindUnique s"] assms(2) by blast
  then have cat: "x \<in> t_name ` set (tags ?s')"
    by (simp add: after_updateTags_def add_names_def Let_def)
  have ne: "remove_names input \<noteq> []"
    using assms(3) by auto
  then have s': "?s' = issue UserFindUniqueOrThrow
      (userTag_deleteMany_in uid (remove_names input) ?mid)"
    unfolding add_names_def remove_names_def by (simp add: after_updateTags_def Let_def)
  have logm: "calls ?mid = calls s @ [UserFindUnique] @
        concat (map (\<lambda>name. [TagUpsert, UserTagUpsert]) (add_names input))"
    by (simp add: upsert_tags_calls)
  have log: "calls ?s' = calls s @ [UserFindUnique] @
        concat (map (\<lambda>name. [TagUpsert, UserTagUpsert]) (add_names input)) @
        [UserTagDeleteMany, UserFindUniqueOrThrow]"
    unfolding s' by (simp add: upsert_tags_calls)
  have ok: "(\<forall>n \<in> set (add_names input). has_tag ?mid uid n) \<and>
        (\<forall>uid' n. has_tag ?mid uid' n \<longleftrightarrow>
           has_tag s uid' n \<or> (uid' = uid \<and> n \<in> set (add_names input))) \<and>
        (\<forall>uid' n. has_tag ?s' uid' n \<longleftrightarrow>
           (has_tag s uid' n \<or> (uid' = uid \<and> n \<in> set (add_names input))) \<and>
           \<not> (uid' = uid \<and> n \<in> set (remove_names input))) \<and>
        set (v_tags ?view) =
          {n. (has_tag s uid n \<or> n \<in> set (add_names input)) \<and>
              n \<notin> set (remove_names input)}"
    if wf: "tag_refs_ok s"
  proof -
    have m: "has_tag ?mid uid' n =
        (has_tag s uid' n \<or> (uid' = uid \<and> n \<in> set (add_names input)))" for uid' n
      using upsert_tags_held [of uid' "issue UserFindUnique s" uid "add_names input" n]
        tag_refs_ok_attach_inv [OF wf, of uid']
      by simp
    have a: "has_tag ?s' uid' n =
        ((has_tag s uid' n \<or> (uid' = uid \<and> n \<in> set (add_names input))) \<and>
         \<not> (uid' = uid \<and> n \<in> set (remove_names input)))" for uid' n
      unfolding s' by (simp add: has_tag_after_deleteMany_in m)
    have v: "set (v_tags ?view) =
          {n. (has_tag s uid n \<or> n \<in> set (add_names input)) \<and>
              n \<notin> set (remove_names input)}"
      by (simp add: v_tags_toApiUser id a del: set_map)
    from m a v show ?thesis by simp
  qed
  have vid: "v_id ?view = uid"
    by (simp add: id)
  show ?thesis
  proof (rule exI [of _ ?view], rule exI [of _ ?s'], rule exI [of _ ?mid], intro conjI)
    show "tag_refs_ok s \<longrightarrow>
        (\<forall>n \<in> set (add_names input). has_tag ?mid uid n) \<and>
        (\<forall>uid' n. has_tag ?mid uid' n \<longleftrightarrow>
           has_tag s uid' n \<or> (uid' = uid \<and> n \<in> set (add_names input))) \<and>
        (\<forall>uid' n. has_tag ?s' uid' n \<longleftrightarrow>
           (has_tag s uid' n \<or> (uid' = uid \<and> n \<in> set (add_names input))) \<and>
           \<not> (uid' = uid \<and> n \<in> set (remove_names input))) \<and>
        set (v_tags ?view) =
          {n. (has_tag s uid n \<or> n \<in> set (add_names input)) \<and>
              n \<notin> set (remove_names input)}"
      using ok by (rule impI)
  qed (rule r vid view held cat log logm s')+
qed

lemma deleteMany_tables [simp]:
  "users (userTag_deleteMany uid s) = users s"
  "tags (userTag_deleteMany uid s) = tags s"
  "busySlots (userTag_deleteMany uid s) = busySlots s"
  "userTags (userTag_deleteMany uid s) = filter (\<lambda>ut. \<not> ut_userId ut = uid) (userTags s)"
  "calls (userTag_deleteMany uid s) = calls s @ [UserTagDeleteMany]"
  "users (busySlot_deleteMany uid s) = users s"
  "tags (busySlot_deleteMany uid s) = tags s"
  "userTags (busySlot_deleteMany uid s) = userTags s"
  "busySlots (busySlot_deleteMany uid s) = filter (\<lambda>b. \<not> b_userId b = uid) (busySlots s)"
  "calls (busySlot_deleteMany uid s) = calls s @ [BusySlotDeleteMany]"
  by (simp_all add: userTag_deleteMany_def busySlot_deleteMany_def Let_def)

lemma reset_tags_tables [simp]:
  "users (reset_tags input ex s) = users s"
  "busySlots (reset_tags input ex s) = filter (\<lambda>b. \<not> b_userId b = u_id ex) (busySlots s)"
  by (simp_all add: reset_tags_def)

lemma i_user_include [simp]: "i_user (include_relations s u) = u"
  by (simp add: include_relations_def)

lemma create_duplicate_email:
  assumes "c_name input = Some name" and "trim name \<noteq> []"
    and "c_email input = Some email" and "trim email \<noteq> []"
    and ex: "find (\<lambda>u. u_email u = email) (users s) = Some ex"
    and idx: "find (\<lambda>u. u_id u = u_id ex) (users s) = Some ex"
  shows "create rnd None input s =
     (Inr (toApiUser (include_relations (after_reset input name ex s)
             (ex\<lparr>u_name := name, u_phone := new_phone input ex\<rparr>))),
      after_reset input name ex s)"
proof -
  from find_SomeD [OF ex] have dup:
    "\<exists>u \<in> set (users s). u_id u = generateUserId rnd \<or> u_email u = email"
    by blast
  have upd: "user_update (u_id ex) (Some name) (c_phone input) (reset_tags input ex s) =
     (Inr (include_relations (after_reset input name ex s)
             (ex\<lparr>u_name := name, u_phone := new_phone input ex\<rparr>)),
      after_reset input name ex s)"
    unfolding new_phone_def after_reset_def
    by (simp add: user_update_def Let_def idx)
  have c: "user_create None (generateUserId rnd) name email (c_phone input) (new_tags input) s =
     (Inl P2002, issue UserCreate s)"
    using dup by (simp add: user_create_def Let_def)
  have f: "user_findUnique_email email (issue UserCreate s) =
     (Some (include_relations (issue UserFindUnique (issue UserCreate s)) ex),
      issue UserFindUnique (issue UserCreate s))"
    by (simp add: user_findUnique_email_def Let_def ex)
  show ?thesis
    using assms(1-4)
    by (simp add: create_def Let_def c [unfolded new_tags_def] f transaction_def
        upd [unfolded reset_tags_def new_tags_def])
qed

lemma has_tag_cong:
  "tags s = tags s' \<Longrightarrow> userTags s = userTags s' \<Longrightarrow> has_tag s = has_tag s'"
  by (simp add: has_tag_def tag_of_def fun_eq_iff)

lemma after_reset_tables:
  "tags (after_reset input name ex s) = tags (reset_tags input ex s)"
  "userTags (after_reset input name ex s) = userTags (reset_tags input ex s)"
  "busySlots (after_reset input name ex s) = filter (\<lambda>b. \<not> b_userId b = u_id ex) (busySlots s)"
  "users (after_reset input name ex s) =
     map (\<lambda>r. if u_id r = u_id ex
               then ex\<lparr>u_name := name, u_phone := new_phone input ex\<rparr> else r) (users s)"
  by (simp_all add: after_reset_def)

lemma reset_tags_held:
  assumes "distinct (map t_id (tags s))"
  shows "has_tag (reset_tags input ex s) (u_id ex) n = (n \<in> set (new_tags input))"
proof -
  let ?tx = "userTag_deleteMany (u_id ex)
          (busySlot_deleteMany (u_id ex) (issue UserFindUnique (issue UserCreate s)))"
  have inv: "attach_inv (u_id ex) ?tx"
    using assms by (simp add: attach_inv_def)
  have none: "\<not> has_tag ?tx (u_id ex) n"
    by (simp add: has_tag_def)
  show ?thesis
    unfolding reset_tags_def upsert_tags_held [OF inv] using none by simp
qed

lemma reset_tags_catalog:
  "set (tags s) \<subseteq> set (tags (reset_tags input ex s))"
  "set (new_tags input) \<subseteq> t_name ` set (tags (reset_tags input ex s))"
  unfolding reset_tags_def
  using upsert_tags_tags_mono [of "userTag_deleteMany (u_id ex)
          (busySlot_deleteMany (u_id ex) (issue UserFindUnique (issue UserCreate s)))"
          "u_id ex" "new_tags input"]
    upsert_tags_names [of "new_tags input" "u_id ex"]
  by simp_all

lemma reset_tags_other_rows:
  "filter (\<lambda>ut. \<not> ut_userId ut = u_id ex) (userTags (reset_tags input ex s)) =
   filter (\<lambda>ut. \<not> ut_userId ut = u_id ex) (userTags s)"
  unfolding reset_tags_def upsert_tags_other_rows by simp

text \<open>
  What \<^verbatim>\<open>create\<close> does on a duplicate email, for a name and an email that are not
  blank and a store that raises nothing but the unique-constraint violation: the call
  succeeds, the existing user's busy slots are deleted, the tags the user holds afterwards
  are exactly the normalised new tags (absent tags are created, no tag is deleted), the
  name is the new one, the associations of other users and the ids and emails of all
  users stay, and the returned view is that of the reused record under its old id. The
  phone of the view is the new one only when the input has one; otherwise it is the
  stored one.
\<close>

lemma create_duplicate_email_resets:
  assumes "c_name input = Some name" and "trim name \<noteq> []"
    and "c_email input = Some email" and "trim email \<noteq> []"
    and "ex \<in> set (users s)" and "u_email ex = email"
    and "store_keys_ok s"
  shows "\<exists>view s'. create rnd None input s = (Inr view, s') \<and>
     v_id view = u_id ex \<and> v_email view = email \<and> v_name view = name \<and>
     v_phone view = (case c_phone input of None \<Rightarrow> u_phone ex | Some p \<Rightarrow> Some p) \<and>
     set (v_tags view) = set (new_tags input) \<and> v_busy view = [] \<and>
     busySlots s' = filter (\<lambda>b. \<not> b_userId b = u_id ex) (busySlots s) \<and>
     (\<forall>n. has_tag s' (u_id ex) n \<longleftrightarrow> n \<in> set (new_tags input)) \<and>
     filter (\<lambda>ut. \<not> ut_userId ut = u_id ex) (userTags s') =
       filter (\<lambda>ut. \<not> ut_userId ut = u_id ex) (userTags s) \<and>
     set (new_tags input) \<subseteq> t_name ` set (tags s') \<and> set (tags s) \<subseteq> set (tags s') \<and>
     map u_id (users s') = map u_id (users s) \<and> map u_email (users s') = map u_email (users s)"
proof -
  let ?s' = "after_reset input name ex s"
  let ?ex' = "ex\<lparr>u_name := name, u_phone := new_phone input ex\<rparr>"
  let ?view = "toApiUser (include_relations ?s' ?ex')"
  from assms(7) have du: "distinct (map u_id (users s))"
    and de: "distinct (map u_email (users s))" and dt: "distinct (map t_id (tags s))"
    by (simp_all add: store_keys_ok_def)
  have ex: "find (\<lambda>u. u_email u = email) (users s) = Some ex"
    using find_distinct_key [OF de, of email ex] assms(5,6) by simp
  have idx: "find (\<lambda>u. u_id u = u_id ex) (users s) = Some ex"
    using find_distinct_key [OF du, of "u_id ex" ex] assms(5) by simp
  have r: "create rnd None input s = (Inr ?view, ?s')"
    by (rule create_duplicate_email [OF assms(1-4) ex idx])
  have ht: "has_tag ?s' = has_tag (reset_tags input ex s)"
    by (rule has_tag_cong) (simp_all add: after_reset_tables)
  have held: "has_tag ?s' (u_id ex) n = (n \<in> set (new_tags input))" for n
    unfolding ht by (rule reset_tags_held [OF dt])
  have row: "v_id ?view = u_id ex" "v_email ?view = email" "v_name ?view = name"
    "v_phone ?view = (case c_phone input of None \<Rightarrow> u_phone ex | Some p \<Rightarrow> Some p)"
    using assms(6) by (simp_all add: toApiUser_def new_phone_def)
  have tg: "set (v_tags ?view) = set (new_tags input)"
    using held by (auto simp: v_tags_toApiUser simp del: set_map)
  have busy: "v_busy ?view = []"
    by (simp add: toApiUser_def include_relations_def busySlots_of_user_def after_reset_tables)
  have rows: "filter (\<lambda>ut. \<not> ut_userId ut = u_id ex) (userTags ?s') =
       filter (\<lambda>ut. \<not> ut_userId ut = u_id ex) (userTags s)"
    by (simp add: after_reset_tables reset_tags_other_rows)
  have cat: "set (new_tags input) \<subseteq> t_name ` set (tags ?s')" "set (tags s) \<subseteq> set (tags ?s')"
    using reset_tags_catalog [where s = s and input = input and ex = ex]
    by (simp_all add: after_reset_tables)
  have same: "\<forall>x \<in> set (users s). u_id x = u_id ex \<longrightarrow> x = ex"
    using du assms(5) by (auto simp: distinct_map dest: inj_onD)
  have us: "map u_id (users ?s') = map u_id (users s)"
    "map u_email (users ?s') = map u_email (users s)"
    using same by (auto simp: after_reset_tables)
  have bs: "busySlots ?s' = filter (\<lambda>b. \<not> b_userId b = u_id ex) (busySlots s)"
    by (simp add: after_reset_tables)
  from r row tg busy bs held rows cat us show ?thesis
    by (intro exI [of _ ?view] exI [of _ ?s']) (simp only: simp_thms)
qed

lemma scenario_review_window: "window_ok scenario_parse review_slot 1770379200000 1770382800000"
  by (simp add: window_ok_def parseIsoDate_def scenario_parse_def review_slot_def trim_def is_ws_def)

lemma scenario_inverted_window: "\<not> (\<exists>a b. window_ok scenario_parse inverted_slot a b)"
  by (simp add: window_ok_def parseIsoDate_def scenario_parse_def inverted_slot_def trim_def
      is_ws_def)

lemma scenario_user_ids:
  "u_id ` set (users scenario_store) = {''usr_1'', ''usr_2'', ''usr_3'', ''usr_4''}"
  by (simp add: scenario_users)

theorem markBusy_outcomes_witness:
  "(\<exists>msg. markBusy scenario_parse ''usr_2'' inverted_slot scenario_store =
      (Inl (BadRequest msg), scenario_store)) \<and>
   fst (markBusy scenario_parse ''usr_9'' review_slot scenario_store) =
      Inl (NotFound ''user not found'') \<and>
   (\<exists>slot. fst (markBusy scenario_parse ''usr_2'' review_slot scenario_store) =
        Inr \<lparr>bv_id = b_id slot, bv_from = 1770379200000, bv_to = 1770382800000,
             bv_reason = Some ''Review''\<rparr> \<and>
      b_from slot = 1770379200000 \<and> b_to slot = 1770382800000 \<and>
      b_reason slot = Some ''Review'' \<and> b_userId slot = ''usr_2'' \<and>
      busySlots (snd (markBusy scenario_parse ''usr_2'' review_slot scenario_store)) =
        busySlots scenario_store @ [slot])"
proof -
  have known: "\<exists>u \<in> set (users scenario_store). u_id u = ''usr_2''"
    and unknown: "\<not> (\<exists>u \<in> set (users scenario_store). u_id u = ''usr_9'')"
    by (simp_all add: scenario_users)
  have 1: "\<exists>msg. markBusy scenario_parse ''usr_2'' inverted_slot scenario_store =
      (Inl (BadRequest msg), scenario_store)"
    using markBusy_outcomes [of scenario_parse inverted_slot "''usr_2''" scenario_store]
      scenario_inverted_window by blast
  have 2: "fst (markBusy scenario_parse ''usr_9'' review_slot scenario_store) =
      Inl (NotFound ''user not found'')"
    using markBusy_outcomes [of scenario_parse review_slot "''usr_9''" scenario_store]
      scenario_review_window unknown by blast
  have "\<exists>slot. fst (markBusy scenario_parse ''usr_2'' review_slot scenario_store) =
        Inr \<lparr>bv_id = b_id slot, bv_from = 1770379200000, bv_to = 1770382800000,
             bv_reason = m_reason review_slot\<rparr> \<and>
      b_from slot = 1770379200000 \<and> b_to slot = 1770382800000 \<and>
      b_reason slot = m_reason review_slot \<and> b_userId slot = ''usr_2'' \<and>
      b_id slot \<notin> b_id ` set (busySlots scenario_store) \<and>
      busySlots (snd (markBusy scenario_parse ''usr_2'' review_slot scenario_store)) =
        busySlots scenario_store @ [slot]"
    using markBusy_outcomes [of scenario_parse review_slot "''usr_2''" scenario_store]
      scenario_review_window known by blast
  then have 3: "\<exists>slot. fst (markBusy scenario_parse ''usr_2'' review_slot scenario_store) =
        Inr \<lparr>bv_id = b_id slot, bv_from = 1770379200000, bv_to = 1770382800000,
             bv_reason = Some ''Review''\<rparr> \<and>
      b_from slot = 1770379200000 \<and> b_to slot = 1770382800000 \<and>
      b_reason slot = Some ''Review'' \<and> b_userId slot = ''usr_2'' \<and>
      busySlots (snd (markBusy scenario_parse ''usr_2'' review_slot scenario_store)) =
        busySlots scenario_store @ [slot]"
    by (auto simp: review_slot_def)
  from 1 2 3 show ?thesis by (intro conjI)
qed

theorem delete_reports_NotFound_witness:
  "''usr_1'' \<in> u_id ` set (users scenario_store) \<and>
   fst (delete (Some (Unavailable ''connection lost'')) ''usr_1'' scenario_store) =
     Inl (NotFound ''user not found'') \<and>
   fst (delete None ''usr_9'' scenario_store) = Inl (NotFound ''user not found'') \<and>
   fst (delete None ''usr_1'' scenario_store) = Inr ()"
proof -
  have 1: "fst (delete (Some (Unavailable ''connection lost'')) ''usr_1'' scenario_store) =
     Inl (NotFound ''user not found'')"
    using delete_reports_NotFound
      [of "Some (Unavailable ''connection lost'')" "''usr_1''" scenario_store]
    by blast
  have "fst (user_delete None ''usr_9'' scenario_store) = Inl P2025"
    by (simp add: user_delete_def Let_def scenario_users)
  then have 2: "fst (delete None ''usr_9'' scenario_store) = Inl (NotFound ''user not found'')"
    using delete_reports_NotFound [of None "''usr_9''" scenario_store] by blast
  have 3: "fst (delete None ''usr_1'' scenario_store) = Inr ()"
    using delete_reports_NotFound [of None "''usr_1''" scenario_store]
    by (simp add: scenario_users)
  from 1 2 3 show ?thesis by (simp add: scenario_user_ids)
qed

lemma scenario_swap_names:
  "add_names swap_backend = [''ops'', ''backend'']" "remove_names swap_backend = [''backend'']"
  by (simp_all add: add_names_def remove_names_def swap_backend_def normalizeTags_def trim_def
      is_ws_def Let_def)

lemma scenario_drop_names:
  "add_names drop_backend = []" "remove_names drop_backend = [''backend'', ''ops'']"
  by (simp_all add: add_names_def remove_names_def drop_backend_def normalizeTags_def trim_def
      is_ws_def Let_def)

theorem updateTags_keeps_catalog_witness:
  "tags (snd (updateTags ''usr_1'' drop_backend scenario_store)) = tags scenario_store \<and>
   ''backend'' \<in> t_name ` set (tags (snd (updateTags ''usr_1'' drop_backend scenario_store))) \<and>
   \<not> has_tag (snd (updateTags ''usr_1'' drop_backend scenario_store)) ''usr_1'' ''backend'' \<and>
   has_tag (snd (updateTags ''usr_1'' drop_backend scenario_store)) ''usr_3'' ''backend'' \<and>
   userTags (snd (updateTags ''usr_2'' drop_backend scenario_store)) = userTags scenario_store"
proof -
  have u1: "''usr_1'' \<in> u_id ` set (users scenario_store)"
    and u2: "''usr_2'' \<in> u_id ` set (users scenario_store)"
    by (simp_all add: scenario_user_ids)
  note k1 = updateTags_keeps_catalog [of scenario_store "''usr_1''" drop_backend]
  note k2 = updateTags_keeps_catalog [of scenario_store "''usr_2''" drop_backend]
  from k1 u1 scenario_drop_names(1)
  have 1: "tags (snd (updateTags ''usr_1'' drop_backend scenario_store)) = tags scenario_store"
    by blast
  have 2: "''backend'' \<in> t_name ` set (tags (snd (updateTags ''usr_1'' drop_backend scenario_store)))"
    unfolding 1 by (simp add: scenario_store_def)
  from k1 u1 have "\<forall>n \<in> set (remove_names drop_backend).
      \<not> has_tag (snd (updateTags ''usr_1'' drop_backend scenario_store)) ''usr_1'' n"
    by blast
  then have 3: "\<not> has_tag (snd (updateTags ''usr_1'' drop_backend scenario_store)) ''usr_1'' ''backend''"
    by (simp add: scenario_drop_names)
  from k1 u1 scenario_drop_names(1)
  have "has_tag (snd (updateTags ''usr_1'' drop_backend scenario_store)) ''usr_3'' ''backend'' =
      (has_tag scenario_store ''usr_3'' ''backend'' \<and>
       \<not> (''usr_3'' = ''usr_1'' \<and> ''backend'' \<in> set (remove_names drop_backend)))"
    by blast
  then have 4: "has_tag (snd (updateTags ''usr_1'' drop_backend scenario_store)) ''usr_3'' ''backend''"
    by (simp add: scenario_has_tag)
  have "\<forall>n \<in> set (remove_names drop_backend). \<not> has_tag scenario_store ''usr_2'' n"
    by (simp add: scenario_drop_names has_tag_def tag_of_def scenario_store_def)
  with k2 u2 scenario_drop_names(1)
  have 5: "userTags (snd (updateTags ''usr_2'' drop_backend scenario_store)) = userTags scenario_store"
    by blast
  from 1 2 3 4 5 show ?thesis by (intro conjI)
qed

lemma scenario_tag_refs_ok: "tag_refs_ok scenario_store"
  by (simp add: tag_refs_ok_def scenario_store_def)

lemma scenario_has_frontend:
  "has_tag scenario_store ''usr_2'' n = (n = ''frontend'')"
  by (auto simp: has_tag_def tag_of_def scenario_store_def)

theorem updateTags_add_then_remove_witness:
  "\<exists>view s' mid. updateTags ''usr_2'' swap_backend scenario_store = (Inr view, s') \<and>
     v_id view = ''usr_2'' \<and> ''backend'' \<notin> set (v_tags view) \<and>
     \<not> has_tag s' ''usr_2'' ''backend'' \<and> ''backend'' \<in> t_name ` set (tags s') \<and>
     calls s' = [UserFindUnique, TagUpsert, UserTagUpsert, TagUpsert, UserTagUpsert,
                 UserTagDeleteMany, UserFindUniqueOrThrow] \<and>
     calls mid = [UserFindUnique, TagUpsert, UserTagUpsert, TagUpsert, UserTagUpsert] \<and>
     has_tag mid ''usr_2'' ''backend'' \<and> has_tag mid ''usr_2'' ''ops'' \<and>
     has_tag s' ''usr_2'' ''ops'' \<and> has_tag s' ''usr_2'' ''frontend'' \<and>
     set (v_tags view) = {''frontend'', ''ops''}"
proof -
  have u2: "''usr_2'' \<in> u_id ` set (users scenario_store)"
    by (simp add: scenario_user_ids)
  have a: "''backend'' \<in> set (add_names swap_backend)"
    and r: "''backend'' \<in> set (remove_names swap_backend)"
    by (simp_all add: scenario_swap_names)
  have c: "calls scenario_store = []"
    by (simp add: scenario_store_def)
  from updateTags_add_then_remove [OF u2 a r]
  obtain view s' mid where res: "updateTags ''usr_2'' swap_backend scenario_store = (Inr view, s')"
    and v: "v_id view = ''usr_2''" "''backend'' \<notin> set (v_tags view)"
      "\<not> has_tag s' ''usr_2'' ''backend''" "''backend'' \<in> t_name ` set (tags s')"
    and l: "calls s' = calls scenario_store @ [UserFindUnique] @
        concat (map (\<lambda>name. [TagUpsert, UserTagUpsert]) (add_names swap_backend)) @
        [UserTagDeleteMany, UserFindUniqueOrThrow]"
      "calls mid = calls scenario_store @ [UserFindUnique] @
        concat (map (\<lambda>name. [TagUpsert, UserTagUpsert]) (add_names swap_backend))"
    and ok: "tag_refs_ok scenario_store \<longrightarrow>
        (\<forall>n \<in> set (add_names swap_backend). has_tag mid ''usr_2'' n) \<and>
        (\<forall>uid' n. has_tag mid uid' n \<longleftrightarrow>
           has_tag scenario_store uid' n \<or>
           (uid' = ''usr_2'' \<and> n \<in> set (add_names swap_backend))) \<and>
        (\<forall>uid' n. has_tag s' uid' n \<longleftrightarrow>
           (has_tag scenario_store uid' n \<or>
            (uid' = ''usr_2'' \<and> n \<in> set (add_names swap_backend))) \<and>
           \<not> (uid' = ''usr_2'' \<and> n \<in> set (remove_names swap_backend))) \<and>
        set (v_tags view) =
          {n. (has_tag scenario_store ''usr_2'' n \<or> n \<in> set (add_names swap_backend)) \<and>
              n \<notin> set (remove_names swap_backend)}"
    by (elim exE conjE)
  from ok scenario_tag_refs_ok
  have mid: "\<forall>n \<in> set (add_names swap_backend). has_tag mid ''usr_2'' n"
    and aft: "\<forall>uid' n. has_tag s' uid' n \<longleftrightarrow>
           (has_tag scenario_store uid' n \<or>
            (uid' = ''usr_2'' \<and> n \<in> set (add_names swap_backend))) \<and>
           \<not> (uid' = ''usr_2'' \<and> n \<in> set (remove_names swap_backend))"
    and vt: "set (v_tags view) =
          {n. (has_tag scenario_store ''usr_2'' n \<or> n \<in> set (add_names swap_backend)) \<and>
              n \<notin> set (remove_names swap_backend)}"
    by blast+
  have 1: "has_tag mid ''usr_2'' ''backend''" "has_tag mid ''usr_2'' ''ops''"
    using mid by (simp_all add: scenario_swap_names)
  have 2: "has_tag s' ''usr_2'' ''ops''" "has_tag s' ''usr_2'' ''frontend''"
    by (simp_all add: aft scenario_swap_names scenario_has_frontend)
  have 3: "set (v_tags view) = {''frontend'', ''ops''}"
    unfolding vt by (auto simp: scenario_swap_names scenario_has_frontend)
  have 4: "calls s' = [UserFindUnique, TagUpsert, UserTagUpsert, TagUpsert, UserTagUpsert,
                 UserTagDeleteMany, UserFindUniqueOrThrow]"
    "calls mid = [UserFindUnique, TagUpsert, UserTagUpsert, TagUpsert, UserTagUpsert]"
    using l by (simp_all add: scenario_swap_names c)
  show ?thesis
    by (rule exI [of _ view], rule exI [of _ s'], rule exI [of _ mid])
      (simp add: res v 1 2 4, simp add: 3)
qed

lemma scenario_keys_ok: "store_keys_ok scenario_store"
  by (simp add: store_keys_ok_def scenario_store_def)

text \<open>
  C4. On a duplicate email \<^verbatim>\<open>create\<close> deletes the busy slots and tag associations
  of the existing user, attaches the new tags, takes the new name and returns the reused
  record under its old id, but the phone is not taken from the new input when that has
  none: a request with the name and email of the scenario's fourth user and no phone
  returns the reused record \<^verbatim>\<open>usr_4\<close> still carrying the phone \<^verbatim>\<open>555\<close>, whereas the
  same request on a store without that user creates a record without a phone.
\<close>

theorem create_duplicate_email_keeps_stored_phone:
  "''user4@example.com'' \<in> u_email ` set (users scenario_store) \<and>
   c_phone again_user4 = None \<and>
   (\<exists>view s'. create ''k3x9q2ab'' None again_user4 scenario_store = (Inr view, s') \<and>
      v_id view = ''usr_4'' \<and> v_name view = ''User Four'' \<and>
      v_email view = ''user4@example.com'' \<and> v_busy view = [] \<and>
      set (v_tags view) = {''backend''} \<and> v_phone view = Some ''555'') \<and>
   (\<exists>view s'. create ''k3x9q2ab'' None again_user4 empty_store = (Inr view, s') \<and>
      v_id view = ''usr_k3x9q2ab'' \<and> v_name view = ''User Four'' \<and>
      v_email view = ''user4@example.com'' \<and> v_phone view = None)"
proof -
  let ?ex = "\<lparr>u_id = ''usr_4'', u_name = ''User Four'', u_email = ''user4@example.com'',
              u_phone = Some ''555''\<rparr>"
  have n: "c_name again_user4 = Some ''User Four''" "trim ''User Four'' \<noteq> []"
    and e: "c_email again_user4 = Some ''user4@example.com''" "trim ''user4@example.com'' \<noteq> []"
    and p: "c_phone again_user4 = None"
    by (simp_all add: again_user4_def trim_def is_ws_def)
  have ex: "?ex \<in> set (users scenario_store)" "u_email ?ex = ''user4@example.com''"
    by (simp_all add: scenario_users)
  have t: "new_tags again_user4 = [''backend'']"
    by (simp add: new_tags_def again_user4_def normalizeTags_def trim_def is_ws_def Let_def)
  from create_duplicate_email_resets [OF n e ex scenario_keys_ok, of "''k3x9q2ab''"]
  obtain view s' where "create ''k3x9q2ab'' None again_user4 scenario_store = (Inr view, s')"
    and "v_id view = u_id ?ex" and "v_email view = ''user4@example.com''"
    and "v_name view = ''User Four''"
    and "v_phone view = (case c_phone again_user4 of None \<Rightarrow> u_phone ?ex | Some p \<Rightarrow> Some p)"
    and "set (v_tags view) = set (new_tags again_user4)" and "v_busy view = []"
    by (elim exE conjE)
  then have dup: "\<exists>view s'. create ''k3x9q2ab'' None again_user4 scenario_store = (Inr view, s') \<and>
      v_id view = ''usr_4'' \<and> v_name view = ''User Four'' \<and>
      v_email view = ''user4@example.com'' \<and> v_busy view = [] \<and>
      set (v_tags view) = {''backend''} \<and> v_phone view = Some ''555''"
    by (intro exI [of _ view] exI [of _ s']) (simp add: p t)
  have fresh: "\<exists>view s'. create ''k3x9q2ab'' None again_user4 empty_store = (Inr view, s') \<and>
      v_id view = ''usr_k3x9q2ab'' \<and> v_name view = ''User Four'' \<and>
      v_email view = ''user4@example.com'' \<and> v_phone view = None"
    by (simp add: create_def again_user4_def empty_store_def trim_def is_ws_def user_create_def
        Let_def generateUserId_def toApiUser_def issue_def split_def)
  have mem: "''user4@example.com'' \<in> u_email ` set (users scenario_store)"
    by (simp add: scenario_users)
  from mem p dup fresh show ?thesis by (intro conjI)
qed

end
